theory Spec2Isabelle
  imports Main "HOL-Library.Multiset"
begin

section \<open>Errors and streams (stream.go)\<close>

text \<open>
  A CSV record is a slice of field strings. Go's \<^verbatim>\<open>int\<close> is a 64-bit two's complement
  integer on the usual targets; it is modelled by the mathematical integers, with the
  wrap-around of \<^verbatim>\<open>ixRow++\<close> written out in \<open>incr\<close> below.
\<close>

type_synonym fields = "string list"

datatype tag = ErrOnRow | ErrParse | ErrOnData

text \<open>
  Error values. \<open>Other\<close> is an opaque error of a collaborator (the operating system, the
  HTTP client, the gzip decoder, the CSV tokenizer, a callback). The remaining
  constructors are the errors that the source builds with \<^verbatim>\<open>fmt.Errorf\<close>; a wrapped
  error keeps the error it wraps.
\<close>

datatype error =
    Other string
  | CouldNotCreateRequest error
  | CouldNotRequest error
  | CouldNotReadGzipBody error
  | CouldOpenFile string error
  | GzipFailed string error
  | CouldNotOpenStream error
  | OnDataWithoutParse
  | InvalidWorkers int
  | CouldNotReadLine int error
  | Tagged tag int error

text \<open>
  An \<^verbatim>\<open>io.Reader\<close> handed to \<^verbatim>\<open>ReadStream\<close> is identified by a number; what matters
  to the source is whether its dynamic type also has a \<^verbatim>\<open>Close\<close> method, which is
  what the type assertion \<^verbatim>\<open>ra.Reader.(io.ReadCloser)\<close> tests.
\<close>

datatype reader = PlainReader nat | ClosableReader nat

fun has_Close :: "reader \<Rightarrow> bool" where
  "has_Close (PlainReader _) = False"
| "has_Close (ClosableReader _) = True"

text \<open>The closable byte streams that the three \<^verbatim>\<open>Open\<close> methods can return.\<close>

datatype readcloser =
    File nat
  | Body nat
  | GzipReader readcloser
  | Self reader
  | NopCloser reader

text \<open>
  The collaborators of \<^verbatim>\<open>Open\<close>: the file system, the HTTP client and the gzip
  decoder. Each is a parameter; a failing call returns the error.
\<close>

record http_response =
  res_Body :: nat
  content_type :: string

record os_env =
  os_Open :: "string \<Rightarrow> error + nat"
  http_NewRequest :: "string \<Rightarrow> error option"
  http_Do :: "string \<Rightarrow> error + http_response"
  gzip_NewReader :: "readcloser \<Rightarrow> error option"

text \<open>What \<^verbatim>\<open>Open\<close> does to the resources it touches, in order.\<close>

datatype io_event = Opened readcloser | Closed readcloser

text \<open>
  \<^verbatim>\<open>filepath.Ext\<close>: the suffix beginning at the final dot in the final element of the
  path, empty if there is no dot. The library scans the path from its end and stops at
  a path separator; \<open>ext_scan\<close> is that loop over the reversed path.
\<close>

fun ext_scan :: "string \<Rightarrow> string \<Rightarrow> string" where
  "ext_scan [] acc = []"
| "ext_scan (c # cs) acc =
     (if c = CHR ''/'' then []
      else if c = CHR ''.'' then c # acc
      else ext_scan cs (c # acc))"

definition Ext :: "string \<Rightarrow> string" where
  "Ext path = ext_scan (rev path) []"

text \<open>\<^verbatim>\<open>strings.ToLower\<close> on the ASCII letters; other bytes are left as they are.\<close>

definition lower_char :: "char \<Rightarrow> char" where
  "lower_char c =
     (let n = (of_char c :: nat)
      in if 65 \<le> n \<and> n \<le> 90 then char_of (n + 32) else c)"

definition ToLower :: "string \<Rightarrow> string" where
  "ToLower s = map lower_char s"

text \<open>\<^verbatim>\<open>strings.Contains\<close>.\<close>

fun HasPrefix :: "string \<Rightarrow> string \<Rightarrow> bool" where
  "HasPrefix s [] = True"
| "HasPrefix [] (p # ps) = False"
| "HasPrefix (c # cs) (p # ps) = (c = p \<and> HasPrefix cs ps)"

fun Contains :: "string \<Rightarrow> string \<Rightarrow> bool" where
  "Contains [] sub = (sub = [])"
| "Contains (c # cs) sub = (HasPrefix (c # cs) sub \<or> Contains cs sub)"

text \<open>
  \<^verbatim>\<open>HTTPStream.Open\<close>. The result is paired with the resource events of the call.
\<close>

definition HTTPStream_Open :: "os_env \<Rightarrow> string \<Rightarrow> (error + readcloser) \<times> io_event list" where
  "HTTPStream_Open env hs =
     (case http_NewRequest env hs of
        Some err \<Rightarrow> (Inl (CouldNotCreateRequest err), [])
      | None \<Rightarrow>
         (case http_Do env hs of
            Inl err \<Rightarrow> (Inl (CouldNotRequest err), [])
          | Inr res \<Rightarrow>
             (let r = Body (res_Body res)
              in if Contains (content_type res) ''gzip''
                 then (case gzip_NewReader env r of
                         Some err \<Rightarrow> (Inl (CouldNotReadGzipBody err), [Opened r])
                       | None \<Rightarrow> (Inr (GzipReader r), [Opened r]))
                 else (Inr r, [Opened r]))))"

text \<open>\<^verbatim>\<open>FileStream.Open\<close>.\<close>

definition FileStream_Open :: "os_env \<Rightarrow> string \<Rightarrow> (error + readcloser) \<times> io_event list" where
  "FileStream_Open env fs =
     (let ext = ToLower (Ext fs)
      in case os_Open env fs of
           Inl err \<Rightarrow> (Inl (CouldOpenFile fs err), [])
         | Inr fd \<Rightarrow>
            (let r = File fd
             in if ext = ''.gz''
                then (case gzip_NewReader env r of
                        Some err \<Rightarrow> (Inl (GzipFailed fs err), [Opened r, Closed r])
                      | None \<Rightarrow> (Inr (GzipReader r), [Opened r]))
                else (Inr r, [Opened r])))"

text \<open>\<^verbatim>\<open>readerAdapter.Open\<close>, the stream that \<^verbatim>\<open>ReadStream\<close> builds.\<close>

definition readerAdapter_Open :: "reader \<Rightarrow> (error + readcloser) \<times> io_event list" where
  "readerAdapter_Open r =
     (if has_Close r then (Inr (Self r), []) else (Inr (NopCloser r), []))"

text \<open>The \<^verbatim>\<open>Stream\<close> interface with its three implementations.\<close>

datatype stream = HTTPStream string | FileStream string | ReadStream reader

fun Open :: "os_env \<Rightarrow> stream \<Rightarrow> (error + readcloser) \<times> io_event list" where
  "Open env (HTTPStream hs) = HTTPStream_Open env hs"
| "Open env (FileStream fs) = FileStream_Open env fs"
| "Open env (ReadStream r) = readerAdapter_Open r"

text \<open>The handles that a sequence of resource events leaves open.\<close>

fun open_handles :: "io_event list \<Rightarrow> readcloser list \<Rightarrow> readcloser list" where
  "open_handles [] hs = hs"
| "open_handles (Opened h # es) hs = open_handles es (h # hs)"
| "open_handles (Closed h # es) hs = open_handles es (removeAll h hs)"

text \<open>The path ends in \<^verbatim>\<open>.gz\<close>, whatever the case of the two letters.\<close>

definition ends_in_gz :: "string \<Rightarrow> bool" where
  "ends_in_gz path =
     (case rev path of
        z # g # d # _ \<Rightarrow> d = CHR ''.'' \<and> g \<in> {CHR ''g'', CHR ''G''} \<and> z \<in> {CHR ''z'', CHR ''Z''}
      | _ \<Rightarrow> False)"

section \<open>The parser (bigcsv.go)\<close>

text \<open>
  The \<^verbatim>\<open>Parser[T]\<close> struct. A callback field is \<open>None\<close> when it is \<^verbatim>\<open>nil\<close>. A
  callback that returns an \<^verbatim>\<open>error\<close> is a function into \<open>error option\<close>; \<^verbatim>\<open>Parse\<close>
  returns the pair \<^verbatim>\<open>(T, error)\<close>. The tokenizer (the \<^verbatim>\<open>Reader\<close> field) is part of
  the run state below.
\<close>

record 'd parser =
  closer :: readcloser
  OnRow :: "(fields \<Rightarrow> error option) option"
  Parse :: "(fields \<Rightarrow> 'd \<times> error option) option"
  OnData :: "('d \<Rightarrow> error option) option"
  OnError :: "(error \<Rightarrow> unit) option"

text \<open>\<^verbatim>\<open>New\<close>: opens the stream and keeps it as the closer; no callback is set.\<close>

definition New :: "os_env \<Rightarrow> stream \<Rightarrow> error + 'd parser" where
  "New env strm =
     (case fst (Open env strm) of
        Inl err \<Rightarrow> Inl (CouldNotOpenStream err)
      | Inr r \<Rightarrow> Inr \<lparr>closer = r, OnRow = None, Parse = None, OnData = None, OnError = None\<rparr>)"

subsection \<open>Callbacks and the per-row pipeline\<close>

text \<open>
  A callback invocation, as an observer of the run sees it: which callback was called
  and with what argument. \<open>CallOnRow\<close> and \<open>CallParse\<close> record the field values that the
  callback found in the record it was handed.
\<close>

datatype 'd call = CallOnRow fields | CallParse fields | CallOnData 'd | CallOnError error

text \<open>
  The guarded report that the source repeats at each failure:
  \<^verbatim>\<open>if p.OnError != nil { p.OnError(err) }\<close>.
\<close>

definition report :: "'d parser \<Rightarrow> error \<Rightarrow> 'd call list" where
  "report p err = (case OnError p of None \<Rightarrow> [] | Some _ \<Rightarrow> [CallOnError err])"

text \<open>
  \<^verbatim>\<open>processRow\<close> without its deferred function (the release of the slot and
  \<^verbatim>\<open>wg.Done\<close>, which the run below performs as steps of their own): the callbacks
  it invokes on a record, in order.
\<close>

definition processRow :: "'d parser \<Rightarrow> int \<Rightarrow> fields \<Rightarrow> 'd call list" where
  "processRow p ix row =
     (let after_OnRow =
            (case Parse p of
               None \<Rightarrow> []
             | Some parse \<Rightarrow>
                CallParse row #
                (case parse row of
                   (data, Some err) \<Rightarrow> report p (Tagged ErrParse ix err)
                 | (data, None) \<Rightarrow>
                    (case OnData p of
                       None \<Rightarrow> []
                     | Some handler \<Rightarrow>
                        CallOnData data #
                        (case handler data of
                           Some err \<Rightarrow> report p (Tagged ErrOnData ix err)
                         | None \<Rightarrow> []))))
      in case OnRow p of
           None \<Rightarrow> after_OnRow
         | Some hook \<Rightarrow>
            CallOnRow row #
            (case hook row of
               Some err \<Rightarrow> report p (Tagged ErrOnRow ix err)
             | None \<Rightarrow> after_OnRow))"

text \<open>
  The first stage of the pipeline that fails on a record, with its error, read off the
  callbacks alone: the pre-parse hook, then the parse function, then the result handler.
\<close>

definition first_failure :: "'d parser \<Rightarrow> fields \<Rightarrow> (tag \<times> error) option" where
  "first_failure p row =
     (case (case OnRow p of None \<Rightarrow> None | Some hook \<Rightarrow> hook row) of
        Some err \<Rightarrow> Some (ErrOnRow, err)
      | None \<Rightarrow>
         (case Parse p of
            None \<Rightarrow> None
          | Some parse \<Rightarrow>
             (case parse row of
                (data, Some err) \<Rightarrow> Some (ErrParse, err)
              | (data, None) \<Rightarrow>
                 (case OnData p of
                    None \<Rightarrow> None
                  | Some handler \<Rightarrow>
                     (case handler data of
                        Some err \<Rightarrow> Some (ErrOnData, err)
                      | None \<Rightarrow> None)))))"

fun is_CallOnError :: "'d call \<Rightarrow> bool" where
  "is_CallOnError (CallOnError _) = True"
| "is_CallOnError _ = False"

fun is_CallParse :: "'d call \<Rightarrow> bool" where
  "is_CallParse (CallParse _) = True"
| "is_CallParse _ = False"

fun is_CallOnData :: "'d call \<Rightarrow> bool" where
  "is_CallOnData (CallOnData _) = True"
| "is_CallOnData _ = False"

subsection \<open>The state of a run\<close>

text \<open>
  What a call of \<^verbatim>\<open>p.Reader.Read()\<close> returns when it is not \<^verbatim>\<open>io.EOF\<close>: a record, or
  an error other than end of input (the tokenizer may also have written a partial
  record into its buffer).
\<close>

datatype outcome = Record fields | Failed fields error

text \<open>
  The source behind the tokenizer: what the \<open>k\<close>-th call of \<^verbatim>\<open>Read\<close> that the run makes
  returns, counted from 0, with \<open>None\<close> for \<^verbatim>\<open>io.EOF\<close>. A source need not reach its
  end: a truncated or broken stream makes every further call fail with the same error.
\<close>

type_synonym source = "nat \<Rightarrow> outcome option"

text \<open>A source of finitely many rows, followed by the end of input.\<close>

definition rows_then_eof :: "outcome list \<Rightarrow> source" where
  "rows_then_eof inp k = (if k < length inp then Some (inp ! k) else None)"

text \<open>A source of finitely many rows, after which every read fails with a lasting error.\<close>

definition rows_then_error :: "outcome list \<Rightarrow> error \<Rightarrow> source" where
  "rows_then_error inp err k = (if k < length inp then Some (inp ! k) else Some (Failed [] err))"

text \<open>
  Where a worker goroutine stands in \<^verbatim>\<open>processRow\<close>: before the pre-parse hook,
  before the parse function, before the result handler (holding the parsed value), in
  the deferred function before \<^verbatim>\<open><-sem\<close>, or before \<^verbatim>\<open>wg.Done()\<close>.
\<close>

datatype 'd wpc = WOnRow | WParse | WOnData 'd | WRelease | WDone

text \<open>
  A goroutine holds the row ordinal and the slice it was handed: \<open>w_addr\<close> is the
  backing array of the slice. \<open>w_row\<close> remembers the field values that the tokenizer
  returned for the row; the goroutine itself never reads it.
\<close>

record 'd worker =
  w_ix :: int
  w_addr :: nat
  w_row :: fields
  w_pc :: "'d wpc"

text \<open>Where \<^verbatim>\<open>Run\<close> stands.\<close>

datatype mpc =
    Entry
  | LoopCond
  | Select
  | Reading
  | ReadFailed error
  | Release
  | Waiting
  | Closing
  | Returned

text \<open>
  The state of a run: the position and the locals of \<^verbatim>\<open>Run\<close>, the tokenizer (its
  \<^verbatim>\<open>ReuseRecord\<close> flag, its source and position in it, and the memory that holds the records
  it returned: address 0 is the buffer it reuses, \<open>fresh\<close> the next new allocation), the
  number of tokens in the channel \<^verbatim>\<open>sem\<close>, the counter of the wait group, the worker
  goroutines that have been started and have not finished, whether the context is
  cancelled, and the value that \<^verbatim>\<open>Run\<close> returns. \<open>closed\<close>, \<open>reads\<close> and \<open>calls\<close> log
  what the run did: the streams closed, each call of \<^verbatim>\<open>Read\<close> with the value of
  \<^verbatim>\<open>ixRow\<close> at the call (\<open>None\<close> for \<^verbatim>\<open>io.EOF\<close>), and the callbacks invoked.
\<close>

record 'd state =
  pc :: mpc
  ixRow :: int
  ReuseRecord :: bool
  source :: source
  pos :: nat
  heap :: "nat \<Rightarrow> fields"
  fresh :: nat
  sem :: nat
  wg :: int
  active :: "'d worker list"
  cancelled :: bool
  retval :: "error option"
  closed :: "readcloser list"
  reads :: "(int \<times> outcome option) list"
  calls :: "'d call list"

text \<open>
  The state in which \<^verbatim>\<open>Run\<close> is called: over a source, with a context that may be
  cancelled already, and with the \<^verbatim>\<open>ReuseRecord\<close> flag as the caller has left it
  (\<^verbatim>\<open>Reader\<close> is a public field).
\<close>

definition init :: "source \<Rightarrow> bool \<Rightarrow> bool \<Rightarrow> 'd state" where
  "init src c reuse =
     \<lparr>pc = Entry, ixRow = 0, ReuseRecord = reuse, source = src, pos = 0, heap = (\<lambda>_. []),
      fresh = 1, sem = 0, wg = 0, active = [], cancelled = c, retval = None,
      closed = [], reads = [], calls = []\<rparr>"

text \<open>\<^verbatim>\<open>ixRow++\<close> on a 64-bit \<^verbatim>\<open>int\<close>: the successor of the largest value is the least.\<close>

definition incr :: "int \<Rightarrow> int" where
  "incr i = (if i = 9223372036854775807 then - 9223372036854775808 else i + 1)"

subsection \<open>The steps of \<^verbatim>\<open>Run\<close> and of the worker goroutines\<close>

text \<open>
  One step of the goroutine that runs \<^verbatim>\<open>Run\<close>, called with \<open>workers\<close>; \<open>None\<close> when it
  is blocked. At \<open>Select\<close> this is the case \<^verbatim>\<open>sem <- struct{}{}\<close> of the
  \<^verbatim>\<open>select\<close> statement, which can proceed when the channel of capacity \<open>workers\<close>
  is not full. At \<open>Reading\<close> a record is read into the reused buffer or into a new
  allocation, and \<^verbatim>\<open>wg.Add(1)\<close>, the \<^verbatim>\<open>go\<close> statement and \<^verbatim>\<open>ixRow++\<close> follow.
\<close>

definition main_step :: "'d parser \<Rightarrow> int \<Rightarrow> 'd state \<Rightarrow> 'd state option" where
  "main_step p workers s =
     (case pc s of
        Entry \<Rightarrow>
          Some (if OnData p \<noteq> None \<and> Parse p = None
                then s\<lparr>pc := Closing, retval := Some OnDataWithoutParse\<rparr>
                else if workers < 1
                then s\<lparr>pc := Closing, retval := Some (InvalidWorkers workers)\<rparr>
                else s\<lparr>pc := LoopCond, ReuseRecord := (workers = 1), ixRow := 1\<rparr>)
      | LoopCond \<Rightarrow>
          Some (if ixRow s > 0 then s\<lparr>pc := Select\<rparr> else s\<lparr>pc := Waiting\<rparr>)
      | Select \<Rightarrow>
          (if int (sem s) < workers then Some (s\<lparr>pc := Reading, sem := sem s + 1\<rparr>) else None)
      | Reading \<Rightarrow>
          (case source s (pos s) of
             None \<Rightarrow> Some (s\<lparr>pc := Waiting, reads := reads s @ [(ixRow s, None)]\<rparr>)
           | Some (Failed row err) \<Rightarrow>
               (let a = (if ReuseRecord s then 0 else fresh s)
                in Some (s\<lparr>pc := ReadFailed err, pos := Suc (pos s),
                           heap := (heap s)(a := row), fresh := Suc (fresh s),
                           reads := reads s @ [(ixRow s, Some (Failed row err))]\<rparr>))
           | Some (Record row) \<Rightarrow>
               (let a = (if ReuseRecord s then 0 else fresh s)
                in Some (s\<lparr>pc := LoopCond, pos := Suc (pos s),
                           heap := (heap s)(a := row), fresh := Suc (fresh s),
                           reads := reads s @ [(ixRow s, Some (Record row))],
                           wg := wg s + 1,
                           active := active s @
                             [\<lparr>w_ix = ixRow s, w_addr = a, w_row = row, w_pc = WOnRow\<rparr>],
                           ixRow := incr (ixRow s)\<rparr>)))
      | ReadFailed err \<Rightarrow>
          Some (s\<lparr>pc := Release,
                  calls := calls s @ report p (CouldNotReadLine (ixRow s) err)\<rparr>)
      | Release \<Rightarrow>
          (if sem s = 0 then None
           else Some (s\<lparr>pc := LoopCond, sem := sem s - 1, ixRow := incr (ixRow s)\<rparr>))
      | Waiting \<Rightarrow>
          (if wg s = 0 then Some (s\<lparr>pc := Closing, retval := None\<rparr>) else None)
      | Closing \<Rightarrow>
          Some (s\<lparr>pc := Returned, closed := closed s @ [closer p]\<rparr>)
      | Returned \<Rightarrow> None)"

text \<open>
  The other case of the \<^verbatim>\<open>select\<close> statement, \<^verbatim>\<open><-ctx.Done()\<close>, which can proceed
  when the context is cancelled. When both cases can proceed, Go chooses one of them
  at random, so neither case waits for the other to be impossible.
\<close>

definition done_step :: "'d state \<Rightarrow> 'd state option" where
  "done_step s = (if pc s = Select \<and> cancelled s then Some (s\<lparr>pc := Waiting\<rparr>) else None)"

text \<open>
  One step of a worker goroutine at position \<open>w_pc w\<close>: the callbacks it invokes
  (they read the record through the slice, from \<open>h\<close>) and its next position.
\<close>

definition worker_body :: "'d parser \<Rightarrow> (nat \<Rightarrow> fields) \<Rightarrow> 'd worker \<Rightarrow> 'd call list \<times> 'd wpc" where
  "worker_body p h w =
     (let row = h (w_addr w)
      in case w_pc w of
           WOnRow \<Rightarrow>
             (case OnRow p of
                None \<Rightarrow> ([], WParse)
              | Some hook \<Rightarrow>
                 (case hook row of
                    Some err \<Rightarrow> (CallOnRow row # report p (Tagged ErrOnRow (w_ix w) err), WRelease)
                  | None \<Rightarrow> ([CallOnRow row], WParse)))
         | WParse \<Rightarrow>
             (case Parse p of
                None \<Rightarrow> ([], WRelease)
              | Some parse \<Rightarrow>
                 (case parse row of
                    (data, Some err) \<Rightarrow>
                      (CallParse row # report p (Tagged ErrParse (w_ix w) err), WRelease)
                  | (data, None) \<Rightarrow>
                      ([CallParse row], if OnData p = None then WRelease else WOnData data)))
         | WOnData data \<Rightarrow>
             (case OnData p of
                None \<Rightarrow> ([], WRelease)
              | Some handler \<Rightarrow>
                 (case handler data of
                    Some err \<Rightarrow>
                      (CallOnData data # report p (Tagged ErrOnData (w_ix w) err), WRelease)
                  | None \<Rightarrow> ([CallOnData data], WRelease)))
         | WRelease \<Rightarrow> ([], WDone)
         | WDone \<Rightarrow> ([], WDone))"

text \<open>
  One step of the \<open>i\<close>-th worker goroutine; \<open>None\<close> when there is no such goroutine or it
  is blocked. The deferred function receives from \<^verbatim>\<open>sem\<close>, which blocks on an empty
  channel, and then calls \<^verbatim>\<open>wg.Done()\<close>, after which the goroutine is gone.
\<close>

definition worker_step :: "'d parser \<Rightarrow> nat \<Rightarrow> 'd state \<Rightarrow> 'd state option" where
  "worker_step p i s =
     (if i < length (active s)
      then (let w = active s ! i
            in case w_pc w of
                 WDone \<Rightarrow>
                   Some (s\<lparr>wg := wg s - 1, active := take i (active s) @ drop (Suc i) (active s)\<rparr>)
               | WRelease \<Rightarrow>
                   (if sem s = 0 then None
                    else Some (s\<lparr>sem := sem s - 1,
                                 active := (active s)[i := w\<lparr>w_pc := WDone\<rparr>]\<rparr>))
               | _ \<Rightarrow>
                   (case worker_body p (heap s) w of
                      (cs, pc') \<Rightarrow>
                        Some (s\<lparr>calls := calls s @ cs,
                                active := (active s)[i := w\<lparr>w_pc := pc'\<rparr>]\<rparr>)))
      else None)"

text \<open>
  An event is a step of \<^verbatim>\<open>Run\<close>, the cancellation case of its \<^verbatim>\<open>select\<close>, a step of a
  worker goroutine, or the cancellation of the context by its owner (from a callback
  or from outside), which may happen at any moment.
\<close>

datatype event = Main | CtxDone | Goroutine nat | Cancel

fun step :: "'d parser \<Rightarrow> int \<Rightarrow> event \<Rightarrow> 'd state \<Rightarrow> 'd state option" where
  "step p workers Main s = main_step p workers s"
| "step p workers CtxDone s = done_step s"
| "step p workers (Goroutine i) s = worker_step p i s"
| "step p workers Cancel s = (if cancelled s then None else Some (s\<lparr>cancelled := True\<rparr>))"

text \<open>A run under a schedule: the events in the order in which the scheduler lets them happen.\<close>

fun exec :: "'d parser \<Rightarrow> int \<Rightarrow> event list \<Rightarrow> 'd state \<Rightarrow> 'd state option" where
  "exec p workers [] s = Some s"
| "exec p workers (e # es) s =
     (case step p workers e s of None \<Rightarrow> None | Some s' \<Rightarrow> exec p workers es s')"

text \<open>The two preconditions that \<^verbatim>\<open>Run\<close> checks on entry.\<close>

definition config_ok :: "'d parser \<Rightarrow> int \<Rightarrow> bool" where
  "config_ok p workers = (\<not> (OnData p \<noteq> None \<and> Parse p = None) \<and> \<not> workers < 1)"

text \<open>A worker goroutine that has not yet returned its slot.\<close>

definition holding :: "'d worker \<Rightarrow> bool" where
  "holding w = (w_pc w \<noteq> WDone)"

text \<open>Whether \<^verbatim>\<open>Read\<close> has returned \<^verbatim>\<open>io.EOF\<close>.\<close>

definition at_eof :: "'d state \<Rightarrow> bool" where
  "at_eof s = (reads s \<noteq> [] \<and> snd (last (reads s)) = None)"

text \<open>
  Whether \<^verbatim>\<open>Run\<close> itself holds a slot: between its send on \<^verbatim>\<open>sem\<close> and the
  \<^verbatim>\<open>go\<close> statement or its own receive, and for good once \<^verbatim>\<open>Read\<close> has returned
  \<^verbatim>\<open>io.EOF\<close>, where the loop is left without a receive.
\<close>

fun slot_held :: "mpc \<Rightarrow> bool \<Rightarrow> bool" where
  "slot_held Reading e = True"
| "slot_held (ReadFailed err) e = True"
| "slot_held Release e = True"
| "slot_held Waiting e = e"
| "slot_held Closing e = e"
| "slot_held Returned e = e"
| "slot_held Entry e = False"
| "slot_held LoopCond e = False"
| "slot_held Select e = False"

definition main_holds :: "'d state \<Rightarrow> bool" where
  "main_holds s = slot_held (pc s) (at_eof s)"

text \<open>Positions of \<^verbatim>\<open>Run\<close> before the loop is left.\<close>

fun in_loop :: "mpc \<Rightarrow> bool" where
  "in_loop Waiting = False"
| "in_loop Closing = False"
| "in_loop Returned = False"
| "in_loop Entry = True"
| "in_loop LoopCond = True"
| "in_loop Select = True"
| "in_loop Reading = True"
| "in_loop (ReadFailed err) = True"
| "in_loop Release = True"

text \<open>Positions at which \<^verbatim>\<open>ixRow\<close> is the ordinal of the next read.\<close>

fun before_read :: "mpc \<Rightarrow> bool" where
  "before_read LoopCond = True"
| "before_read Select = True"
| "before_read Reading = True"
| "before_read _ = False"

text \<open>Positions inside the loop body, past the test \<^verbatim>\<open>ixRow > 0\<close>.\<close>

fun past_test :: "mpc \<Rightarrow> bool" where
  "past_test Select = True"
| "past_test Reading = True"
| "past_test _ = False"

text \<open>Positions at which \<^verbatim>\<open>ixRow\<close> is the ordinal of the read that has just failed.\<close>

fun after_failure :: "mpc \<Rightarrow> bool" where
  "after_failure (ReadFailed err) = True"
| "after_failure Release = True"
| "after_failure _ = False"

text \<open>The calls of \<^verbatim>\<open>Read\<close> that returned a row (a record or a read error), with their ordinals.\<close>

definition row_reads :: "'d state \<Rightarrow> (int \<times> outcome option) list" where
  "row_reads s = filter (\<lambda>r. snd r \<noteq> None) (reads s)"

text \<open>The ordinals 1, 2, ..., n.\<close>

definition ordinals :: "nat \<Rightarrow> int list" where
  "ordinals n = map (\<lambda>k. int k + 1) [0..<n]"

text \<open>The largest value of a 64-bit \<^verbatim>\<open>int\<close>.\<close>

definition MaxInt :: int where
  "MaxInt = 9223372036854775807"

subsection \<open>Invariants of a run\<close>

text \<open>
  Slots: the wait group counts the goroutines, the tokens in \<^verbatim>\<open>sem\<close> are those of
  the goroutines that have not released theirs plus the one \<^verbatim>\<open>Run\<close> may hold, and
  the channel is never over its capacity.
\<close>

definition slots_inv :: "int \<Rightarrow> 'd state \<Rightarrow> bool" where
  "slots_inv workers s =
     (wg s = int (length (active s))
      \<and> sem s = length (filter holding (active s)) + (if main_holds s then 1 else 0)
      \<and> int (sem s) \<le> workers
      \<and> (in_loop (pc s) \<longrightarrow> \<not> at_eof s))"

text \<open>
  Records: past the entry the reuse flag is set exactly for one worker; a goroutine
  that still holds its slot finds in its slice the fields that were read for it; in
  reuse mode every slice is the shared buffer, otherwise the slices are distinct
  allocations that are never written again.
\<close>

definition slice_ok :: "bool \<Rightarrow> (nat \<Rightarrow> fields) \<Rightarrow> nat \<Rightarrow> 'd worker \<Rightarrow> bool" where
  "slice_ok reuse h fr w =
     ((holding w \<or> \<not> reuse \<longrightarrow> h (w_addr w) = w_row w)
      \<and> (reuse \<longrightarrow> w_addr w = 0)
      \<and> (\<not> reuse \<longrightarrow> 0 < w_addr w \<and> w_addr w < fr))"

definition heap_inv :: "int \<Rightarrow> 'd state \<Rightarrow> bool" where
  "heap_inv workers s =
     ((pc s \<noteq> Entry \<longrightarrow> ReuseRecord s = (workers = 1))
      \<and> (pc s = Entry \<longrightarrow> active s = [])
      \<and> (\<forall>w \<in> set (active s). slice_ok (ReuseRecord s) (heap s) (fresh s) w)
      \<and> (\<not> ReuseRecord s \<longrightarrow> distinct (map w_addr (active s)))
      \<and> 0 < fresh s)"

text \<open>
  Order: the \<open>k\<close>-th read is made under the ordinal \<open>k + 1\<close> and returns what the source
  holds at \<open>k\<close>; the rows read are the reads before the end of input; \<^verbatim>\<open>ixRow\<close> follows
  the number of rows read; the loop is left only on cancellation, at end of input, or
  when \<^verbatim>\<open>ixRow\<close> has wrapped around.
\<close>

definition order_inv :: "source \<Rightarrow> 'd state \<Rightarrow> bool" where
  "order_inv src s =
     (let n = int (pos s) in
      source s = src
      \<and> map fst (reads s) = ordinals (length (reads s))
      \<and> map snd (reads s) = map src [0..<length (reads s)]
      \<and> length (reads s) = pos s + (if at_eof s then 1 else 0)
      \<and> row_reads s = take (pos s) (reads s)
      \<and> (\<forall>k < pos s. src k \<noteq> None)
      \<and> (at_eof s \<longrightarrow> src (pos s) = None)
      \<and> n \<le> MaxInt
      \<and> (before_read (pc s) \<longrightarrow> ixRow s = (if n < MaxInt then n + 1 else - MaxInt - 1))
      \<and> (past_test (pc s) \<longrightarrow> 0 < ixRow s)
      \<and> (after_failure (pc s) \<longrightarrow> ixRow s = n \<and> 0 < n)
      \<and> (in_loop (pc s) \<longrightarrow> \<not> at_eof s)
      \<and> (\<not> in_loop (pc s) \<longrightarrow> cancelled s \<or> at_eof s \<or> n = MaxInt)
      \<and> (pc s = Entry \<longrightarrow> reads s = [] \<and> pos s = 0))"

text \<open>Return: with a valid configuration \<^verbatim>\<open>Run\<close> returns \<^verbatim>\<open>nil\<close>, after the goroutines are gone.\<close>

definition return_inv :: "'d state \<Rightarrow> bool" where
  "return_inv s = (retval s = None \<and> (pc s = Closing \<or> pc s = Returned \<longrightarrow> active s = [] \<and> wg s = 0))"

text \<open>The error that \<^verbatim>\<open>Run\<close> returns when a precondition fails.\<close>

definition config_error :: "'d parser \<Rightarrow> int \<Rightarrow> error" where
  "config_error p workers =
     (if OnData p \<noteq> None \<and> Parse p = None then OnDataWithoutParse else InvalidWorkers workers)"

text \<open>With an invalid configuration nothing is read and no goroutine is started.\<close>

definition refused_inv :: "'d parser \<Rightarrow> int \<Rightarrow> 'd state \<Rightarrow> bool" where
  "refused_inv p workers s =
     (reads s = [] \<and> pos s = 0 \<and> active s = [] \<and> wg s = 0 \<and> sem s = 0 \<and> calls s = []
      \<and> (pc s = Entry \<or> pc s = Closing \<or> pc s = Returned)
      \<and> (pc s \<noteq> Entry \<longrightarrow> retval s = Some (config_error p workers)))"

text \<open>The stream is closed by the last step of \<^verbatim>\<open>Run\<close> and by no other.\<close>

definition close_inv :: "'d parser \<Rightarrow> 'd state \<Rightarrow> bool" where
  "close_inv p s = (closed s = (if pc s = Returned then [closer p] else []))"

subsection \<open>A measure of the work that is left\<close>

fun main_rank :: "mpc \<Rightarrow> nat" where
  "main_rank Returned = 0"
| "main_rank Closing = 1"
| "main_rank Waiting = 2"
| "main_rank Reading = 3"
| "main_rank Select = 4"
| "main_rank LoopCond = 5"
| "main_rank Release = 6"
| "main_rank (ReadFailed err) = 7"
| "main_rank Entry = 8"

fun worker_rank :: "'d wpc \<Rightarrow> nat" where
  "worker_rank WOnRow = 5"
| "worker_rank WParse = 4"
| "worker_rank (WOnData d) = 3"
| "worker_rank WRelease = 2"
| "worker_rank WDone = 1"

text \<open>
  The work that is left when at most \<open>bound\<close> rows can be read: each row still to be
  read stands for the steps of its read and of its goroutine.
\<close>

definition work_left :: "nat \<Rightarrow> 'd state \<Rightarrow> nat" where
  "work_left bound s =
     (if cancelled s then 0 else 1) + 20 * (bound - pos s) + main_rank (pc s)
     + sum_list (map (\<lambda>w. worker_rank (w_pc w)) (active s))"



subsection \<open>The callbacks that a run owes\<close>







text \<open>
  The per-row pipeline in the words of the specification: the callbacks that are due
  for a row, without the error report. The pre-parse hook if one is configured; if it
  did not fail and a parse function is configured, the parse function; if that did
  not fail and a result handler is configured, the result handler.
\<close>

definition pipeline_calls :: "'d parser \<Rightarrow> fields \<Rightarrow> 'd call list" where
  "pipeline_calls p row =
     (case OnRow p of None \<Rightarrow> [] | Some hook \<Rightarrow> [CallOnRow row])
     @ (if (case OnRow p of None \<Rightarrow> False | Some hook \<Rightarrow> hook row \<noteq> None) then []
        else (case Parse p of
                None \<Rightarrow> []
              | Some parse \<Rightarrow>
                 CallParse row #
                 (if snd (parse row) \<noteq> None then []
                  else (case OnData p of
                          None \<Rightarrow> []
                        | Some handler \<Rightarrow> [CallOnData (fst (parse row))]))))"

subsection \<open>Concrete runs\<close>

text \<open>
  A parser with a parse function that wants two columns and yields their number, a
  result handler that rejects the value 3, and an error callback.
\<close>

definition number_parser :: "nat parser" where
  "number_parser =
     \<lparr>closer = NopCloser (PlainReader 0),
      OnRow = None,
      Parse = Some (\<lambda>row. (length row,
                 if length row < 2 then Some (Other ''need 2 columns'') else None)),
      OnData = Some (\<lambda>d. if d = 3 then Some (Other ''rejected'') else None),
      OnError = Some (\<lambda>_. ())\<rparr>"

text \<open>A good row, a row the tokenizer rejects, a row the parse function rejects.\<close>

definition three_rows :: "outcome list" where
  "three_rows =
     [Record [''1'', ''one''], Failed [] (Other ''bare quote''), Record [''3'']]"

text \<open>
  A schedule for one worker that runs each goroutine to its end before the next read,
  up to the return of \<^verbatim>\<open>Run\<close>.
\<close>

definition serial_schedule :: "event list" where
  "serial_schedule =
     [Main,
      Main, Main, Main, Goroutine 0, Goroutine 0, Goroutine 0, Goroutine 0, Goroutine 0,
      Main, Main, Main, Main, Main,
      Main, Main, Main, Goroutine 0, Goroutine 0, Goroutine 0, Goroutine 0,
      Main, Main, Main, Main, Main]"

text \<open>A file system whose files open and a gzip decoder that rejects every header.\<close>

definition broken_gzip_env :: os_env where
  "broken_gzip_env =
     \<lparr>os_Open = (\<lambda>_. Inr 3),
      http_NewRequest = (\<lambda>_. None),
      http_Do = (\<lambda>_. Inl (Other ''no network'')),
      gzip_NewReader = (\<lambda>_. Some (Other ''invalid header''))\<rparr>"

text \<open>A parser with a pre-parse hook that rejects every row and no error callback.\<close>

definition silent_parser :: "nat parser" where
  "silent_parser =
     \<lparr>closer = NopCloser (PlainReader 0),
      OnRow = Some (\<lambda>row. Some (Other ''rejected'')),
      Parse = None,
      OnData = None,
      OnError = None\<rparr>"

text \<open>
  A schedule for a context that is cancelled before the call, in which the
  \<^verbatim>\<open>select\<close> statement takes the cancellation case at once.
\<close>

definition cancelled_schedule :: "event list" where
  "cancelled_schedule = [Main, Main, CtxDone, Main, Main]"

text \<open>Three good rows, as in the timing test of the repository.\<close>

definition good_rows :: "outcome list" where
  "good_rows = [Record [''1'', ''one''], Record [''2'', ''two''], Record [''3'', ''three'']]"

text \<open>
  The start of a run up to the first read and dispatch, and the same followed by the
  second turn of the loop up to the \<^verbatim>\<open>select\<close> statement.
\<close>

definition first_dispatch :: "event list" where
  "first_dispatch = [Main, Main, Main, Main]"

definition second_select :: "event list" where
  "second_select = first_dispatch @ [Main]"

text \<open>With two workers: two rows read and dispatched, then the \<^verbatim>\<open>select\<close> statement.\<close>

definition two_dispatched :: "event list" where
  "two_dispatched = [Main, Main, Main, Main, Main, Main, Main, Main]"

text \<open>
  With one worker: the first goroutine runs up to the release of its slot, and
  \<^verbatim>\<open>Run\<close> acquires the slot for the second read before the goroutine is gone.
\<close>

definition released_then_acquired :: "event list" where
  "released_then_acquired =
     first_dispatch @ [Goroutine 0, Goroutine 0, Goroutine 0, Goroutine 0, Main, Main]"



section \<open>Properties\<close>

subsection \<open>Streams\<close>

lemma lower_char_simps:
  "lower_char (CHR ''G'') = CHR ''g''" "lower_char (CHR ''g'') = CHR ''g''"
  "lower_char (CHR ''Z'') = CHR ''z''" "lower_char (CHR ''z'') = CHR ''z''"
  "lower_char (CHR ''.'') = CHR ''.''"
  by code_simp+

lemma Ext_gz:
  assumes "g \<in> {CHR ''g'', CHR ''G''}" "z \<in> {CHR ''z'', CHR ''Z''}"
  shows "ToLower (Ext (pre @ [CHR ''.'', g, z])) = ''.gz''"
proof -
  have "Ext (pre @ [CHR ''.'', g, z]) = [CHR ''.'', g, z]"
    using assms unfolding Ext_def by auto
  then show ?thesis
    using assms unfolding ToLower_def by (auto simp: lower_char_simps)
qed


lemma ends_in_gz_cases:
  assumes "ends_in_gz path"
  obtains pre g z where "path = pre @ [CHR ''.'', g, z]"
    "g \<in> {CHR ''g'', CHR ''G''}" "z \<in> {CHR ''z'', CHR ''Z''}"
proof (cases "rev path")
  case Nil
  with assms show ?thesis by (simp add: ends_in_gz_def)
next
  case c1: (Cons z r1)
  show ?thesis
  proof (cases r1)
    case Nil
    with assms c1 show ?thesis by (simp add: ends_in_gz_def)
  next
    case c2: (Cons g r2)
    show ?thesis
    proof (cases r2)
      case Nil
      with assms c1 c2 show ?thesis by (simp add: ends_in_gz_def)
    next
      case c3: (Cons d r3)
      from assms c1 c2 c3 have c: "d = CHR ''.''" "g \<in> {CHR ''g'', CHR ''G''}" "z \<in> {CHR ''z'', CHR ''Z''}"
        by (simp_all add: ends_in_gz_def)
      from c1 c2 c3 have "rev (rev path) = rev (z # g # d # r3)" by simp
      then have "path = rev r3 @ [d, g, z]" by simp
      with c that show ?thesis by blast
    qed
  qed
qed

lemma ends_in_gz_Ext: "ends_in_gz path \<Longrightarrow> ToLower (Ext path) = ''.gz''"
  by (erule ends_in_gz_cases) (simp only: Ext_gz)

subsection \<open>Steps\<close>

lemma filter_nth_split:
  "i < length xs \<Longrightarrow>
   filter P xs = filter P (take i xs) @ (if P (xs ! i) then [xs ! i] else []) @ filter P (drop (Suc i) xs)"
proof -
  assume "i < length xs"
  then have "xs = take i xs @ xs ! i # drop (Suc i) xs" by (rule id_take_nth_drop)
  then have "filter P xs = filter P (take i xs @ xs ! i # drop (Suc i) xs)" by simp
  then show ?thesis by simp
qed

lemma filter_upd_split:
  "i < length xs \<Longrightarrow>
   filter P (xs[i := y]) = filter P (take i xs) @ (if P y then [y] else []) @ filter P (drop (Suc i) xs)"
  by (simp add: upd_conv_take_nth_drop)

lemma count_upd_same:
  "i < length xs \<Longrightarrow> P (xs ! i) = P y \<Longrightarrow> length (filter P (xs[i := y])) = length (filter P xs)"
  by (simp add: filter_upd_split filter_nth_split [of i xs P])

lemma count_upd_drop:
  "i < length xs \<Longrightarrow> P (xs ! i) \<Longrightarrow> \<not> P y \<Longrightarrow> Suc (length (filter P (xs[i := y]))) = length (filter P xs)"
  by (simp add: filter_upd_split filter_nth_split [of i xs P])

lemma count_remove:
  "i < length xs \<Longrightarrow> \<not> P (xs ! i) \<Longrightarrow> length (filter P (take i xs @ drop (Suc i) xs)) = length (filter P xs)"
  by (simp add: filter_nth_split [of i xs P])

lemma worker_body_not_done:
  "w_pc w \<noteq> WRelease \<Longrightarrow> w_pc w \<noteq> WDone \<Longrightarrow> snd (worker_body p h w) \<noteq> WDone"
  by (cases "w_pc w") (auto simp: worker_body_def Let_def split: option.splits prod.splits if_splits)

lemma main_step_cases:
  assumes "main_step p workers s = Some s'"
  obtains
    (no_parse) "pc s = Entry" "OnData p \<noteq> None" "Parse p = None"
      "s' = s\<lparr>pc := Closing, retval := Some OnDataWithoutParse\<rparr>"
  | (no_workers) "pc s = Entry" "\<not> (OnData p \<noteq> None \<and> Parse p = None)" "workers < 1"
      "s' = s\<lparr>pc := Closing, retval := Some (InvalidWorkers workers)\<rparr>"
  | (enter) "pc s = Entry" "config_ok p workers"
      "s' = s\<lparr>pc := LoopCond, ReuseRecord := (workers = 1), ixRow := 1\<rparr>"
  | (loop) "pc s = LoopCond" "0 < ixRow s" "s' = s\<lparr>pc := Select\<rparr>"
  | (wrapped) "pc s = LoopCond" "ixRow s \<le> 0" "s' = s\<lparr>pc := Waiting\<rparr>"
  | (acquire) "pc s = Select" "int (sem s) < workers" "s' = s\<lparr>pc := Reading, sem := sem s + 1\<rparr>"
  | (eof) "pc s = Reading" "source s (pos s) = None"
      "s' = s\<lparr>pc := Waiting, reads := reads s @ [(ixRow s, None)]\<rparr>"
  | (failed) row err where "pc s = Reading" "source s (pos s) = Some (Failed row err)"
      "s' = s\<lparr>pc := ReadFailed err, pos := Suc (pos s),
               heap := (heap s)((if ReuseRecord s then 0 else fresh s) := row),
               fresh := Suc (fresh s),
               reads := reads s @ [(ixRow s, Some (Failed row err))]\<rparr>"
  | (dispatch) row where "pc s = Reading" "source s (pos s) = Some (Record row)"
      "s' = s\<lparr>pc := LoopCond, pos := Suc (pos s),
               heap := (heap s)((if ReuseRecord s then 0 else fresh s) := row),
               fresh := Suc (fresh s),
               reads := reads s @ [(ixRow s, Some (Record row))],
               wg := wg s + 1,
               active := active s @
                 [\<lparr>w_ix = ixRow s, w_addr = (if ReuseRecord s then 0 else fresh s),
                   w_row = row, w_pc = WOnRow\<rparr>],
               ixRow := incr (ixRow s)\<rparr>"
  | (reported) err where "pc s = ReadFailed err"
      "s' = s\<lparr>pc := Release, calls := calls s @ report p (CouldNotReadLine (ixRow s) err)\<rparr>"
  | (released) "pc s = Release" "sem s \<noteq> 0"
      "s' = s\<lparr>pc := LoopCond, sem := sem s - 1, ixRow := incr (ixRow s)\<rparr>"
  | (drained) "pc s = Waiting" "wg s = 0" "s' = s\<lparr>pc := Closing, retval := None\<rparr>"
  | (close) "pc s = Closing" "s' = s\<lparr>pc := Returned, closed := closed s @ [closer p]\<rparr>"
proof (cases "pc s")
  case Entry
  with assms that(1,2,3) show ?thesis
    by (auto simp: main_step_def config_ok_def split: if_splits)
next
  case LoopCond
  with assms that(4,5) show ?thesis
    by (auto simp: main_step_def split: if_splits)
next
  case Select
  with assms that(6) show ?thesis
    by (auto simp: main_step_def split: if_splits)
next
  case Reading
  show ?thesis
  proof (cases "source s (pos s)")
    case None
    with Reading assms that(7) show ?thesis by (simp add: main_step_def)
  next
    case (Some x)
    show ?thesis
    proof (cases x)
      case (Record row)
      with Reading Some assms that(9) [of row] show ?thesis
        by (simp add: main_step_def Let_def)
    next
      case (Failed row err)
      with Reading Some assms that(8) [of row err] show ?thesis
        by (simp add: main_step_def Let_def)
    qed
  qed
next
  case (ReadFailed err)
  with assms that(10) show ?thesis by (simp add: main_step_def)
next
  case Release
  with assms that(11) show ?thesis by (auto simp: main_step_def split: if_splits)
next
  case Waiting
  with assms that(12) show ?thesis by (auto simp: main_step_def split: if_splits)
next
  case Closing
  with assms that(13) show ?thesis by (simp add: main_step_def)
next
  case Returned
  with assms show ?thesis by (simp add: main_step_def)
qed

lemma worker_step_cases:
  assumes "worker_step p i s = Some s'"
  obtains
    (fin) "i < length (active s)" "w_pc (active s ! i) = WDone"
      "s' = s\<lparr>wg := wg s - 1, active := take i (active s) @ drop (Suc i) (active s)\<rparr>"
  | (release) "i < length (active s)" "w_pc (active s ! i) = WRelease" "sem s \<noteq> 0"
      "s' = s\<lparr>sem := sem s - 1, active := (active s)[i := (active s ! i)\<lparr>w_pc := WDone\<rparr>]\<rparr>"
  | (body) "i < length (active s)" "w_pc (active s ! i) \<noteq> WDone" "w_pc (active s ! i) \<noteq> WRelease"
      "s' = s\<lparr>calls := calls s @ fst (worker_body p (heap s) (active s ! i)),
               active := (active s)[i := (active s ! i)\<lparr>w_pc := snd (worker_body p (heap s) (active s ! i))\<rparr>]\<rparr>"
proof -
  from assms have len: "i < length (active s)"
    by (simp add: worker_step_def split: if_splits)
  show ?thesis
  proof (cases "w_pc (active s ! i)")
    case WOnRow
    with assms len that(3) show ?thesis
      by (simp add: worker_step_def Let_def split_beta)
  next
    case WParse
    with assms len that(3) show ?thesis
      by (simp add: worker_step_def Let_def split_beta)
  next
    case (WOnData d)
    with assms len that(3) show ?thesis
      by (simp add: worker_step_def Let_def split_beta)
  next
    case WRelease
    with assms len that(2) show ?thesis
      by (simp add: worker_step_def Let_def split: if_splits)
  next
    case WDone
    with assms len that(1) show ?thesis
      by (simp add: worker_step_def Let_def)
  qed
qed

lemma exec_invariant:
  assumes "exec p workers es s = Some s'" and "I s"
    and "\<And>e s s'. I s \<Longrightarrow> step p workers e s = Some s' \<Longrightarrow> I s'"
  shows "I s'"
  using assms(1,2)
proof (induction es arbitrary: s)
  case Nil
  then show ?case by simp
next
  case (Cons e es)
  then show ?case using assms(3) by (auto split: option.splits)
qed

lemma step_cases:
  assumes "step p workers e s = Some s'"
  obtains
    (main) "e = Main" "main_step p workers s = Some s'"
  | (ctx_done) "e = CtxDone" "pc s = Select" "cancelled s" "s' = s\<lparr>pc := Waiting\<rparr>"
  | (goroutine) i where "e = Goroutine i" "worker_step p i s = Some s'"
  | (cancel) "e = Cancel" "\<not> cancelled s" "s' = s\<lparr>cancelled := True\<rparr>"
  using assms by (cases e) (auto simp: done_step_def split: if_splits)

subsection \<open>Slots\<close>

lemma slots_inv_init: "1 \<le> workers \<Longrightarrow> slots_inv workers (init src c reuse)"
  by (simp add: slots_inv_def init_def main_holds_def at_eof_def)

lemma slots_inv_main:
  assumes "slots_inv workers s" "main_step p workers s = Some s'"
  shows "slots_inv workers s'"
  using assms(2,1)
  by (cases rule: main_step_cases)
     (auto simp: slots_inv_def main_holds_def at_eof_def holding_def)

lemma slots_inv_worker:
  assumes inv: "slots_inv workers s" and st: "worker_step p i s = Some s'"
  shows "slots_inv workers s'"
  using st
proof (cases rule: worker_step_cases)
  case fin
  then have nh: "\<not> holding (active s ! i)" by (simp add: holding_def)
  have "length (filter holding (active s')) = length (filter holding (active s))"
    using fin nh count_remove [of i "active s" holding] by simp
  moreover have "int (length (active s')) = int (length (active s)) - 1"
    using fin by simp
  ultimately show ?thesis
    using inv fin by (simp add: slots_inv_def main_holds_def at_eof_def)
next
  case release
  then have "Suc (length (filter holding (active s'))) = length (filter holding (active s))"
    by (simp add: count_upd_drop holding_def)
  then show ?thesis
    using inv release by (auto simp: slots_inv_def main_holds_def at_eof_def)
next
  case body
  then have "length (filter holding (active s')) = length (filter holding (active s))"
    using worker_body_not_done [of "active s ! i" p "heap s"]
    by (simp add: count_upd_same holding_def)
  then show ?thesis
    using inv body by (simp add: slots_inv_def main_holds_def at_eof_def)
qed

lemma slots_inv_step:
  assumes "slots_inv workers s" "step p workers e s = Some s'"
  shows "slots_inv workers s'"
  using assms(2)
proof (cases rule: step_cases)
  case main
  with assms slots_inv_main show ?thesis by blast
next
  case ctx_done
  with assms show ?thesis by (simp add: slots_inv_def main_holds_def at_eof_def)
next
  case (goroutine i)
  with assms slots_inv_worker show ?thesis by blast
next
  case cancel
  with assms show ?thesis by (simp add: slots_inv_def main_holds_def at_eof_def)
qed

lemma slots_inv_exec:
  assumes "1 \<le> workers" "exec p workers es (init src c reuse) = Some s"
  shows "slots_inv workers s"
  using assms(2)
proof (rule exec_invariant)
  show "slots_inv workers (init src c reuse)" using assms(1) by (rule slots_inv_init)
qed (rule slots_inv_step)

subsection \<open>Records\<close>

lemma distinct_remove_nth:
  "distinct ys \<Longrightarrow> distinct (take i ys @ drop (Suc i) ys)"
  using set_take_disj_set_drop_if_distinct [of ys i "Suc i"] by simp

lemma all_remove_nth:
  "\<forall>x \<in> set xs. Q x \<Longrightarrow> \<forall>x \<in> set (take i xs @ drop (Suc i) xs). Q x"
  by (auto dest: in_set_takeD in_set_dropD)

lemma all_update:
  "\<forall>x \<in> set xs. Q x \<Longrightarrow> Q y \<Longrightarrow> \<forall>x \<in> set (xs[i := y]). Q x"
  using set_update_subset_insert [of xs i y] by auto

lemma map_update_same: "i < length xs \<Longrightarrow> f y = f (xs ! i) \<Longrightarrow> map f (xs[i := y]) = map f xs"
  by (simp add: map_update list_update_same_conv)

lemma no_holder_when_reading:
  assumes "slots_inv 1 s" "slot_held (pc s) (at_eof s)"
  shows "\<forall>w \<in> set (active s). \<not> holding w"
proof -
  from assms have "length (filter holding (active s)) = 0"
    by (auto simp: slots_inv_def main_holds_def)
  then have "filter holding (active s) = []" by simp
  then show ?thesis by (simp add: filter_empty_conv)
qed

lemma heap_inv_init: "heap_inv workers (init src c reuse)"
  by (simp add: heap_inv_def init_def)

lemma slice_ok_write:
  assumes "slice_ok reuse h fr w" "reuse \<longrightarrow> \<not> holding w"
  shows "slice_ok reuse (h((if reuse then 0 else fr) := row)) (Suc fr) w"
  using assms by (auto simp: slice_ok_def)

lemma slice_ok_new:
  "0 < fr \<Longrightarrow>
   slice_ok reuse (h((if reuse then 0 else fr) := row)) (Suc fr)
     \<lparr>w_ix = ix, w_addr = (if reuse then 0 else fr), w_row = row, w_pc = WOnRow\<rparr>"
  by (simp add: slice_ok_def)

lemma slice_ok_pc:
  "slice_ok reuse h fr w \<Longrightarrow> holding (w\<lparr>w_pc := c\<rparr>) \<longrightarrow> holding w \<Longrightarrow>
   slice_ok reuse h fr (w\<lparr>w_pc := c\<rparr>)"
  by (auto simp: slice_ok_def)

lemma heap_inv_main:
  assumes inv: "heap_inv workers s" and sl: "slots_inv workers s"
    and cfg: "config_ok p workers"
    and st: "main_step p workers s = Some s'"
  shows "heap_inv workers s'"
  using st
proof (cases rule: main_step_cases)
  case no_parse
  with cfg show ?thesis by (simp add: config_ok_def)
next
  case no_workers
  with cfg show ?thesis by (simp add: config_ok_def)
next
  case (failed row err)
  have nh: "ReuseRecord s \<longrightarrow> (\<forall>w \<in> set (active s). \<not> holding w)"
    using inv sl failed no_holder_when_reading [of s] by (auto simp: heap_inv_def)
  have "\<forall>w \<in> set (active s). slice_ok (ReuseRecord s)
          ((heap s)((if ReuseRecord s then 0 else fresh s) := row)) (Suc (fresh s)) w"
  proof
    fix w assume w: "w \<in> set (active s)"
    with inv have "slice_ok (ReuseRecord s) (heap s) (fresh s) w" by (simp add: heap_inv_def)
    moreover from w nh have "ReuseRecord s \<longrightarrow> \<not> holding w" by blast
    ultimately show "slice_ok (ReuseRecord s)
          ((heap s)((if ReuseRecord s then 0 else fresh s) := row)) (Suc (fresh s)) w"
      by (rule slice_ok_write)
  qed
  with inv failed show ?thesis by (simp add: heap_inv_def)
next
  case (dispatch row)
  have nh: "ReuseRecord s \<longrightarrow> (\<forall>w \<in> set (active s). \<not> holding w)"
    using inv sl dispatch no_holder_when_reading [of s] by (auto simp: heap_inv_def)
  have old: "\<forall>w \<in> set (active s). slice_ok (ReuseRecord s)
          ((heap s)((if ReuseRecord s then 0 else fresh s) := row)) (Suc (fresh s)) w"
  proof
    fix w assume w: "w \<in> set (active s)"
    with inv have "slice_ok (ReuseRecord s) (heap s) (fresh s) w" by (simp add: heap_inv_def)
    moreover from w nh have "ReuseRecord s \<longrightarrow> \<not> holding w" by blast
    ultimately show "slice_ok (ReuseRecord s)
          ((heap s)((if ReuseRecord s then 0 else fresh s) := row)) (Suc (fresh s)) w"
      by (rule slice_ok_write)
  qed
  have new: "slice_ok (ReuseRecord s)
          ((heap s)((if ReuseRecord s then 0 else fresh s) := row)) (Suc (fresh s))
          \<lparr>w_ix = ixRow s, w_addr = (if ReuseRecord s then 0 else fresh s), w_row = row, w_pc = WOnRow\<rparr>"
    using inv by (simp add: heap_inv_def slice_ok_new)
  have dist: "\<not> ReuseRecord s \<longrightarrow> fresh s \<notin> w_addr ` set (active s)"
    using inv by (auto simp: heap_inv_def slice_ok_def)
  from inv dispatch old new dist show ?thesis by (simp add: heap_inv_def)
qed (use inv in \<open>auto simp: heap_inv_def\<close>)

lemma heap_inv_worker:
  assumes inv: "heap_inv workers s" and st: "worker_step p i s = Some s'"
  shows "heap_inv workers s'"
  using st
proof (cases rule: worker_step_cases)
  case fin
  have "\<forall>w \<in> set (take i (active s) @ drop (Suc i) (active s)).
          slice_ok (ReuseRecord s) (heap s) (fresh s) w"
    using inv by (intro all_remove_nth) (simp add: heap_inv_def)
  moreover have "\<not> ReuseRecord s \<longrightarrow>
      distinct (take i (map w_addr (active s)) @ drop (Suc i) (map w_addr (active s)))"
  proof -
    from inv have "\<not> ReuseRecord s \<longrightarrow> distinct (map w_addr (active s))"
      by (simp add: heap_inv_def)
    then show ?thesis using distinct_remove_nth by blast
  qed
  ultimately show ?thesis
    using inv fin by (auto simp: heap_inv_def take_map drop_map)
next
  case release
  have "slice_ok (ReuseRecord s) (heap s) (fresh s) ((active s ! i)\<lparr>w_pc := WDone\<rparr>)"
    using inv release by (intro slice_ok_pc) (simp_all add: heap_inv_def holding_def)
  then have "\<forall>w \<in> set ((active s)[i := (active s ! i)\<lparr>w_pc := WDone\<rparr>]).
          slice_ok (ReuseRecord s) (heap s) (fresh s) w"
    using inv by (intro all_update) (simp_all add: heap_inv_def)
  with inv release show ?thesis
    by (auto simp: heap_inv_def map_update_same)
next
  case body
  have "slice_ok (ReuseRecord s) (heap s) (fresh s)
          ((active s ! i)\<lparr>w_pc := snd (worker_body p (heap s) (active s ! i))\<rparr>)"
    using inv body by (intro slice_ok_pc) (simp_all add: heap_inv_def holding_def)
  then have "\<forall>w \<in> set ((active s)[i := (active s ! i)\<lparr>w_pc := snd (worker_body p (heap s) (active s ! i))\<rparr>]).
          slice_ok (ReuseRecord s) (heap s) (fresh s) w"
    using inv by (intro all_update) (simp_all add: heap_inv_def)
  with inv body show ?thesis
    by (auto simp: heap_inv_def map_update_same)
qed

lemma heap_inv_step:
  assumes "heap_inv workers s \<and> slots_inv workers s" "config_ok p workers"
    "step p workers e s = Some s'"
  shows "heap_inv workers s' \<and> slots_inv workers s'"
proof
  show "slots_inv workers s'" using assms slots_inv_step by blast
  show "heap_inv workers s'"
    using assms(3)
  proof (cases rule: step_cases)
    case main
    with assms heap_inv_main show ?thesis by blast
  next
    case ctx_done
    with assms show ?thesis by (auto simp: heap_inv_def)
  next
    case (goroutine i)
    with assms heap_inv_worker show ?thesis by blast
  next
    case cancel
    with assms show ?thesis by (auto simp: heap_inv_def)
  qed
qed

lemma heap_inv_exec:
  assumes "config_ok p workers" "exec p workers es (init src c reuse) = Some s"
  shows "heap_inv workers s \<and> slots_inv workers s"
  using assms(2)
proof (rule exec_invariant)
  show "heap_inv workers (init src c reuse) \<and> slots_inv workers (init src c reuse)"
    using assms(1) by (simp add: slots_inv_init heap_inv_init config_ok_def)
next
  fix e s s'
  assume "heap_inv workers s \<and> slots_inv workers s" "step p workers e s = Some s'"
  then show "heap_inv workers s' \<and> slots_inv workers s'"
    using assms(1) heap_inv_step by blast
qed

subsection \<open>Order of reads\<close>

lemma ordinals_Suc: "ordinals (Suc n) = ordinals n @ [int n + 1]"
  by (simp add: ordinals_def)

lemma length_ordinals: "length (ordinals n) = n"
  by (simp add: ordinals_def)

lemma take_ordinals: "k \<le> n \<Longrightarrow> take k (ordinals n) = ordinals k"
  by (simp add: ordinals_def take_map)

lemma order_inv_init: "order_inv src (init src c reuse)"
  by (simp add: order_inv_def init_def row_reads_def MaxInt_def ordinals_def at_eof_def)

lemma order_inv_main:
  assumes inv: "order_inv src s" and cfg: "config_ok p workers"
    and st: "main_step p workers s = Some s'"
  shows "order_inv src s'"
  using st
proof (cases rule: main_step_cases)
  case no_parse
  with cfg show ?thesis by (simp add: config_ok_def)
next
  case no_workers
  with cfg show ?thesis by (simp add: config_ok_def)
next
  case enter
  with inv show ?thesis
    by (auto simp: order_inv_def Let_def row_reads_def MaxInt_def ordinals_def at_eof_def)
next
  case loop
  with inv show ?thesis
    by (simp add: order_inv_def Let_def row_reads_def at_eof_def)
next
  case wrapped
  with inv show ?thesis
    by (auto simp: order_inv_def Let_def row_reads_def MaxInt_def at_eof_def split: if_splits)
next
  case acquire
  with inv show ?thesis
    by (simp add: order_inv_def Let_def row_reads_def at_eof_def)
next
  case eof
  with inv show ?thesis
    by (auto simp: order_inv_def Let_def row_reads_def at_eof_def MaxInt_def ordinals_Suc
        split: if_splits)
next
  case (failed row err)
  with inv show ?thesis
    by (auto simp: order_inv_def Let_def row_reads_def at_eof_def MaxInt_def ordinals_Suc
        less_Suc_eq split: if_splits)
next
  case (dispatch row)
  with inv show ?thesis
    by (auto simp: order_inv_def Let_def row_reads_def at_eof_def MaxInt_def ordinals_Suc
        incr_def less_Suc_eq split: if_splits)
next
  case (reported err)
  with inv show ?thesis
    by (simp add: order_inv_def Let_def row_reads_def at_eof_def)
next
  case released
  with inv show ?thesis
    by (auto simp: order_inv_def Let_def row_reads_def MaxInt_def incr_def at_eof_def
        split: if_splits)
next
  case drained
  with inv show ?thesis
    by (simp add: order_inv_def Let_def row_reads_def at_eof_def)
next
  case close
  with inv show ?thesis
    by (simp add: order_inv_def Let_def row_reads_def at_eof_def)
qed

lemma order_inv_worker:
  assumes inv: "order_inv src s" and st: "worker_step p i s = Some s'"
  shows "order_inv src s'"
  using st
  by (cases rule: worker_step_cases)
     (use inv in \<open>simp_all add: order_inv_def Let_def row_reads_def at_eof_def\<close>)

lemma order_inv_step:
  assumes "order_inv src s" "config_ok p workers" "step p workers e s = Some s'"
  shows "order_inv src s'"
  using assms(3)
proof (cases rule: step_cases)
  case main
  with assms order_inv_main show ?thesis by blast
next
  case ctx_done
  with assms show ?thesis by (simp add: order_inv_def Let_def row_reads_def at_eof_def)
next
  case (goroutine i)
  with assms order_inv_worker show ?thesis by blast
next
  case cancel
  with assms show ?thesis by (simp add: order_inv_def Let_def row_reads_def at_eof_def)
qed

lemma order_inv_exec:
  assumes "config_ok p workers" "exec p workers es (init src c reuse) = Some s"
  shows "order_inv src s"
  using assms(2)
proof (rule exec_invariant)
  show "order_inv src (init src c reuse)" by (rule order_inv_init)
next
  fix e s s'
  assume "order_inv src s" "step p workers e s = Some s'"
  then show "order_inv src s'" using assms(1) order_inv_step by blast
qed

subsection \<open>Return value and closing\<close>

lemma return_inv_step:
  assumes "return_inv s \<and> slots_inv workers s" "config_ok p workers"
    "step p workers e s = Some s'"
  shows "return_inv s' \<and> slots_inv workers s'"
proof
  show "slots_inv workers s'" using assms slots_inv_step by blast
  show "return_inv s'"
    using assms(3)
  proof (cases rule: step_cases)
    case main
    from main(2) show ?thesis
      by (cases rule: main_step_cases)
         (use assms(1,2) in \<open>auto simp: return_inv_def slots_inv_def config_ok_def\<close>)
  next
    case ctx_done
    with assms show ?thesis by (simp add: return_inv_def)
  next
    case (goroutine i)
    from goroutine(2) show ?thesis
      by (cases rule: worker_step_cases)
         (use assms(1) in \<open>auto simp: return_inv_def\<close>)
  next
    case cancel
    with assms show ?thesis by (simp add: return_inv_def)
  qed
qed

lemma return_inv_exec:
  assumes "config_ok p workers" "exec p workers es (init src c reuse) = Some s"
  shows "return_inv s \<and> slots_inv workers s"
  using assms(2)
proof (rule exec_invariant)
  show "return_inv (init src c reuse) \<and> slots_inv workers (init src c reuse)"
  proof
    show "return_inv (init src c reuse)" by (simp add: return_inv_def init_def)
    show "slots_inv workers (init src c reuse)"
      using assms(1) by (intro slots_inv_init) (simp add: config_ok_def)
  qed
next
  fix e s s'
  assume "return_inv s \<and> slots_inv workers s" "step p workers e s = Some s'"
  then show "return_inv s' \<and> slots_inv workers s'"
    using assms(1) return_inv_step by blast
qed

lemma refused_inv_step:
  assumes "refused_inv p workers s" "\<not> config_ok p workers"
    "step p workers e s = Some s'"
  shows "refused_inv p workers s'"
  using assms(3)
proof (cases rule: step_cases)
  case main
  from main(2) show ?thesis
    by (cases rule: main_step_cases)
       (use assms(1,2) in \<open>auto simp: refused_inv_def config_error_def config_ok_def\<close>)
next
  case ctx_done
  with assms show ?thesis by (simp add: refused_inv_def)
next
  case (goroutine i)
  with assms show ?thesis by (simp add: refused_inv_def worker_step_def)
next
  case cancel
  with assms show ?thesis by (simp add: refused_inv_def)
qed

lemma refused_inv_exec:
  assumes "\<not> config_ok p workers" "exec p workers es (init src c reuse) = Some s"
  shows "refused_inv p workers s"
  using assms(2)
proof (rule exec_invariant)
  show "refused_inv p workers (init src c reuse)"
    by (simp add: refused_inv_def init_def)
next
  fix e s s'
  assume "refused_inv p workers s" "step p workers e s = Some s'"
  then show "refused_inv p workers s'"
    using assms(1) refused_inv_step by blast
qed

lemma close_inv_step:
  assumes "close_inv p s" "step p workers e s = Some s'"
  shows "close_inv p s'"
  using assms(2)
proof (cases rule: step_cases)
  case main
  from main(2) show ?thesis
    by (cases rule: main_step_cases) (use assms(1) in \<open>auto simp: close_inv_def\<close>)
next
  case ctx_done
  with assms show ?thesis by (simp add: close_inv_def)
next
  case (goroutine i)
  from goroutine(2) show ?thesis
    by (cases rule: worker_step_cases) (use assms(1) in \<open>auto simp: close_inv_def\<close>)
next
  case cancel
  with assms show ?thesis by (simp add: close_inv_def)
qed

lemma close_inv_exec:
  assumes "exec p workers es (init src c reuse) = Some s"
  shows "close_inv p s"
  using assms
proof (rule exec_invariant)
  show "close_inv p (init src c reuse)" by (simp add: close_inv_def init_def)
qed (rule close_inv_step)

subsection \<open>Termination\<close>

lemma sum_remove_nth:
  fixes f :: "'a \<Rightarrow> 'b::comm_monoid_add"
  assumes "i < length xs"
  shows "sum_list (map f (take i xs @ drop (Suc i) xs)) + f (xs ! i) = sum_list (map f xs)"
proof -
  from assms have "xs = take i xs @ xs ! i # drop (Suc i) xs" by (rule id_take_nth_drop)
  then have "sum_list (map f xs) = sum_list (map f (take i xs @ xs ! i # drop (Suc i) xs))"
    by simp
  then show ?thesis by (simp add: ac_simps)
qed

lemma sum_update_nth:
  fixes f :: "'a \<Rightarrow> 'b::comm_monoid_add"
  assumes "i < length xs"
  shows "sum_list (map f (xs[i := y])) + f (xs ! i) = sum_list (map f xs) + f y"
  using assms sum_remove_nth [of i xs f, symmetric]
  by (simp add: upd_conv_take_nth_drop ac_simps)

lemma worker_body_rank:
  "w_pc w \<noteq> WRelease \<Longrightarrow> w_pc w \<noteq> WDone \<Longrightarrow>
   worker_rank (snd (worker_body p h w)) < worker_rank (w_pc w)"
  by (cases "w_pc w") (auto simp: worker_body_def Let_def split: option.splits prod.splits if_splits)

lemma work_left_main:
  assumes "main_step p workers s = Some s'"
    and "pc s = Reading \<and> source s (pos s) \<noteq> None \<longrightarrow> pos s < bound"
  shows "work_left bound s' < work_left bound s"
  using assms by (cases rule: main_step_cases) (auto simp: work_left_def)

lemma rank_sum_worker:
  assumes "worker_step p i s = Some s'"
  shows "sum_list (map (\<lambda>w. worker_rank (w_pc w)) (active s'))
         < sum_list (map (\<lambda>w. worker_rank (w_pc w)) (active s))"
  using assms
proof (cases rule: worker_step_cases)
  case fin
  then show ?thesis
    using sum_remove_nth [of i "active s" "\<lambda>w. worker_rank (w_pc w)"]
    by simp
next
  case release
  then show ?thesis
    using sum_update_nth [of i "active s" "\<lambda>w. worker_rank (w_pc w)" "(active s ! i)\<lparr>w_pc := WDone\<rparr>"]
    by simp
next
  case body
  then show ?thesis
    using sum_update_nth [of i "active s" "\<lambda>w. worker_rank (w_pc w)"
        "(active s ! i)\<lparr>w_pc := snd (worker_body p (heap s) (active s ! i))\<rparr>"]
      worker_body_rank [of "active s ! i" p "heap s"]
    by simp
qed

lemma worker_step_frame:
  assumes "worker_step p i s = Some s'"
  shows "pc s' = pc s" "pos s' = pos s" "cancelled s' = cancelled s" "reads s' = reads s"
    "source s' = source s" "ixRow s' = ixRow s"
  using assms by (cases rule: worker_step_cases; simp)+

lemma work_left_worker:
  assumes "worker_step p i s = Some s'"
  shows "work_left bound s' < work_left bound s"
  using rank_sum_worker [OF assms] worker_step_frame [OF assms]
  by (simp add: work_left_def)

lemma work_left_step:
  assumes "step p workers e s = Some s'"
    and "pc s = Reading \<and> source s (pos s) \<noteq> None \<longrightarrow> pos s < bound"
  shows "work_left bound s' < work_left bound s"
  using assms(1)
proof (cases rule: step_cases)
  case main
  with assms(2) show ?thesis using work_left_main by blast
next
  case ctx_done
  then show ?thesis by (simp add: work_left_def)
next
  case (goroutine i)
  then show ?thesis using work_left_worker by blast
next
  case cancel
  then show ?thesis by (simp add: work_left_def)
qed


lemma readable_before_wrap:
  assumes "order_inv src s"
  shows "pc s = Reading \<and> source s (pos s) \<noteq> None \<longrightarrow> pos s < nat MaxInt"
  using assms by (auto simp: order_inv_def Let_def MaxInt_def split: if_splits)


lemma readable_refused:
  assumes "refused_inv p workers s"
  shows "pc s = Reading \<and> source s (pos s) \<noteq> None \<longrightarrow> pos s < bound"
  using assms by (auto simp: refused_inv_def)

lemma worker_enabled:
  assumes "slots_inv workers s" "i < length (active s)"
  shows "\<exists>s'. worker_step p i s = Some s'"
proof (cases "w_pc (active s ! i) = WRelease")
  case True
  then have "holding (active s ! i)" by (simp add: holding_def)
  moreover from assms(2) have "active s ! i \<in> set (active s)" by (rule nth_mem)
  ultimately have "\<exists>w \<in> set (active s). holding w" by blast
  then have "filter holding (active s) \<noteq> []"
    by (simp add: filter_empty_conv)
  then have "0 < length (filter holding (active s))" by simp
  with assms(1) have "sem s \<noteq> 0" by (simp add: slots_inv_def)
  with True assms(2) show ?thesis by (simp add: worker_step_def Let_def)
next
  case False
  with assms(2) show ?thesis
    by (cases "w_pc (active s ! i)") (simp_all add: worker_step_def Let_def split_beta)
qed

text \<open>Away from the \<^verbatim>\<open>select\<close> statement, \<^verbatim>\<open>Run\<close> or the first goroutine can step.\<close>

lemma progress_straight:
  assumes sl: "slots_inv workers s" and nr: "pc s \<noteq> Returned" and ns: "pc s \<noteq> Select"
  shows "(\<exists>s'. main_step p workers s = Some s') \<or> (\<exists>s'. worker_step p 0 s = Some s')"
proof -
  have w: "active s \<noteq> [] \<Longrightarrow> ?thesis"
  proof -
    assume "active s \<noteq> []"
    then have "0 < length (active s)" by simp
    with sl show ?thesis using worker_enabled by blast
  qed
  show ?thesis
  proof (cases "pc s")
    case Waiting
    show ?thesis
    proof (cases "wg s = 0")
      case True
      with Waiting show ?thesis by (simp add: main_step_def)
    next
      case False
      with sl have "active s \<noteq> []" by (auto simp: slots_inv_def)
      then show ?thesis by (rule w)
    qed
  next
    case Release
    with sl have "sem s \<noteq> 0" by (simp add: slots_inv_def main_holds_def)
    with Release show ?thesis by (simp add: main_step_def)
  next
    case Reading
    then show ?thesis
      by (simp add: main_step_def Let_def split: option.splits outcome.splits)
  qed (use nr ns in \<open>auto simp: main_step_def\<close>)
qed

text \<open>At the \<^verbatim>\<open>select\<close> statement, \<^verbatim>\<open>Run\<close> can send or the first goroutine can step.\<close>

lemma progress_select:
  assumes sl: "slots_inv workers s" and cfg: "config_ok p workers" and sel: "pc s = Select"
  shows "(\<exists>s'. main_step p workers s = Some s') \<or> (\<exists>s'. worker_step p 0 s = Some s')"
proof (cases "int (sem s) < workers")
  case True
  with sel show ?thesis by (simp add: main_step_def)
next
  case False
  with cfg have "0 < sem s" by (simp add: config_ok_def)
  with sl sel have "0 < length (filter holding (active s))"
    by (simp add: slots_inv_def main_holds_def)
  then have "0 < length (active s)" by auto
  with sl show ?thesis using worker_enabled by blast
qed

lemma progress_ok:
  assumes sl: "slots_inv workers s" and cfg: "config_ok p workers" and nr: "pc s \<noteq> Returned"
    and rd: "pc s = Reading \<and> source s (pos s) \<noteq> None \<longrightarrow> pos s < bound"
  shows "\<exists>e s'. e \<noteq> Cancel \<and> step p workers e s = Some s'
           \<and> work_left bound s' < work_left bound s"
proof -
  have "(\<exists>s'. main_step p workers s = Some s') \<or> (\<exists>s'. worker_step p 0 s = Some s')"
    using progress_straight [OF sl nr] progress_select [OF sl cfg] by blast
  then show ?thesis
  proof
    assume "\<exists>s'. main_step p workers s = Some s'"
    then obtain s' where "step p workers Main s = Some s'" by auto
    with work_left_step [OF this rd] have "Main \<noteq> Cancel \<and> step p workers Main s = Some s'
        \<and> work_left bound s' < work_left bound s"
      by simp
    then show ?thesis by blast
  next
    assume "\<exists>s'. worker_step p 0 s = Some s'"
    then obtain s' where "step p workers (Goroutine 0) s = Some s'" by auto
    with work_left_step [OF this rd] have "Goroutine 0 \<noteq> Cancel
        \<and> step p workers (Goroutine 0) s = Some s'
        \<and> work_left bound s' < work_left bound s"
      by simp
    then show ?thesis by blast
  qed
qed

lemma progress_refused:
  assumes "refused_inv p workers s" "pc s \<noteq> Returned"
  shows "\<exists>e s'. e \<noteq> Cancel \<and> step p workers e s = Some s'
           \<and> work_left bound s' < work_left bound s"
proof -
  from assms have "main_step p workers s \<noteq> None"
    by (auto simp: refused_inv_def main_step_def)
  then obtain s' where s': "step p workers Main s = Some s'" by auto
  from work_left_step [OF this readable_refused [OF assms(1)]] s'
  have "Main \<noteq> Cancel \<and> step p workers Main s = Some s'
        \<and> work_left bound s' < work_left bound s"
    by simp
  then show ?thesis by blast
qed

lemma can_finish:
  fixes m :: "'d state \<Rightarrow> nat"
  assumes inv: "\<And>e s s'. I s \<Longrightarrow> step p workers e s = Some s' \<Longrightarrow> I s'"
    and prog: "\<And>s. I s \<Longrightarrow> pc s \<noteq> Returned \<Longrightarrow>
        \<exists>e s'. e \<noteq> Cancel \<and> step p workers e s = Some s' \<and> m s' < m s"
  shows "I s \<Longrightarrow> \<exists>es s'. Cancel \<notin> set es \<and> length es \<le> m s
           \<and> exec p workers es s = Some s' \<and> pc s' = Returned"
proof (induction "m s" arbitrary: s rule: less_induct)
  case less
  show ?case
  proof (cases "pc s = Returned")
    case True
    then have "Cancel \<notin> set [] \<and> length ([] :: event list) \<le> m s
        \<and> exec p workers [] s = Some s \<and> pc s = Returned" by simp
    then show ?thesis by blast
  next
    case False
    with less.prems prog obtain e s1 where e: "e \<noteq> Cancel" "step p workers e s = Some s1"
      "m s1 < m s"
      by blast
    moreover have "I s1" using inv less.prems e(2) by blast
    ultimately obtain es s' where
      es: "Cancel \<notin> set es" "length es \<le> m s1" "exec p workers es s1 = Some s'" "pc s' = Returned"
      using less.hyps by blast
    with e have "Cancel \<notin> set (e # es) \<and> length (e # es) \<le> m s
        \<and> exec p workers (e # es) s = Some s' \<and> pc s' = Returned"
      by simp
    then show ?thesis by blast
  qed
qed

lemma exec_append:
  "exec p workers (es @ es') s = (case exec p workers es s of None \<Rightarrow> None | Some s1 \<Rightarrow> exec p workers es' s1)"
  by (induction es arbitrary: s) (auto split: option.splits)

lemma run_inv_step:
  assumes "slots_inv workers s \<and> order_inv src s" "config_ok p workers"
    "step p workers e s = Some s'"
  shows "slots_inv workers s' \<and> order_inv src s'"
  using assms slots_inv_step order_inv_step by blast

lemma run_inv_exec:
  assumes "config_ok p workers" "exec p workers es (init src c reuse) = Some s"
  shows "slots_inv workers s \<and> order_inv src s"
  using return_inv_exec [OF assms] order_inv_exec [OF assms] by simp

lemma Run_can_return:
  assumes "exec p workers es (init src c reuse) = Some s"
  shows "\<exists>es' s'. Cancel \<notin> set es' \<and> exec p workers es' s = Some s' \<and> pc s' = Returned"
proof (cases "config_ok p workers")
  case True
  have "slots_inv workers s \<and> order_inv src s" using run_inv_exec [OF True assms] .
  then have "\<exists>es' s'. Cancel \<notin> set es' \<and> length es' \<le> work_left (nat MaxInt) s
      \<and> exec p workers es' s = Some s' \<and> pc s' = Returned"
  proof (rule can_finish [where I = "\<lambda>s. slots_inv workers s \<and> order_inv src s", rotated 2])
    show "\<And>e s s'. slots_inv workers s \<and> order_inv src s \<Longrightarrow> step p workers e s = Some s'
        \<Longrightarrow> slots_inv workers s' \<and> order_inv src s'"
      using True run_inv_step by blast
    show "\<And>s. slots_inv workers s \<and> order_inv src s \<Longrightarrow> pc s \<noteq> Returned \<Longrightarrow>
        \<exists>e s'. e \<noteq> Cancel \<and> step p workers e s = Some s'
          \<and> work_left (nat MaxInt) s' < work_left (nat MaxInt) s"
      using True progress_ok readable_before_wrap by blast
  qed
  then show ?thesis by blast
next
  case False
  have "refused_inv p workers s" using assms False refused_inv_exec by blast
  then have "\<exists>es' s'. Cancel \<notin> set es' \<and> length es' \<le> work_left 0 s
      \<and> exec p workers es' s = Some s' \<and> pc s' = Returned"
  proof (rule can_finish [where I = "refused_inv p workers", rotated 2])
    show "\<And>e s s'. refused_inv p workers s \<Longrightarrow> step p workers e s = Some s' \<Longrightarrow>
        refused_inv p workers s'"
      using False refused_inv_step by blast
    show "\<And>s. refused_inv p workers s \<Longrightarrow> pc s \<noteq> Returned \<Longrightarrow>
        \<exists>e s'. e \<noteq> Cancel \<and> step p workers e s = Some s'
          \<and> work_left 0 s' < work_left 0 s"
      using progress_refused by blast
  qed
  then show ?thesis by blast
qed












subsection \<open>Callbacks\<close>













subsection \<open>Properties of Open, processRow and Run\<close>

lemmas run_simps = main_step_def worker_step_def worker_body_def done_step_def report_def
  init_def incr_def Let_def rows_then_eof_def rows_then_error_def

text \<open>
  C9. \<^verbatim>\<open>ReadStream(r).Open()\<close> returns no error and a stream: \<open>r\<close> itself when it has
  a \<^verbatim>\<open>Close\<close> method, otherwise \<open>r\<close> under a no-op close; \<^verbatim>\<open>New\<close> over a
  \<^verbatim>\<open>ReadStream\<close> therefore returns a parser, whose closer is that stream.
\<close>

theorem ReadStream_Open_always_succeeds:
  "Open env (ReadStream r) = (Inr (if has_Close r then Self r else NopCloser r), [])
   \<and> (\<exists>p. (New env (ReadStream r) :: error + 'd parser) = Inr p
          \<and> closer p = (if has_Close r then Self r else NopCloser r))"
  by (simp add: readerAdapter_Open_def New_def)

theorem ReadStream_Open_always_succeeds_witness:
  "Open broken_gzip_env (ReadStream (PlainReader 7)) = (Inr (NopCloser (PlainReader 7)), [])
   \<and> Open broken_gzip_env (ReadStream (ClosableReader 8)) = (Inr (Self (ClosableReader 8)), [])
   \<and> (\<exists>p. (New broken_gzip_env (ReadStream (PlainReader 7)) :: error + nat parser) = Inr p
          \<and> closer p = NopCloser (PlainReader 7))"
  using ReadStream_Open_always_succeeds [of broken_gzip_env "PlainReader 7", where 'd = nat]
    ReadStream_Open_always_succeeds [of broken_gzip_env "ClosableReader 8", where 'd = nat]
  by simp

text \<open>
  C10. For a path that ends in \<^verbatim>\<open>.gz\<close> in any case, when the file opens and the gzip
  decoder cannot be initialised, \<^verbatim>\<open>FileStream.Open\<close> returns the gzip error after it
  has closed the file it opened: no handle is left open.
\<close>

theorem FileStream_gzip_failure_closes_file:
  assumes "ends_in_gz path"
    and "os_Open env path = Inr fd"
    and "gzip_NewReader env (File fd) = Some err"
  shows "FileStream_Open env path =
           (Inl (GzipFailed path err), [Opened (File fd), Closed (File fd)])
         \<and> open_handles (snd (FileStream_Open env path)) [] = []"
  using assms by (simp add: FileStream_Open_def ends_in_gz_Ext Let_def)

theorem FileStream_gzip_failure_closes_file_witness:
  "ends_in_gz ''data/rows.csv.GZ''
   \<and> os_Open broken_gzip_env ''data/rows.csv.GZ'' = Inr 3
   \<and> gzip_NewReader broken_gzip_env (File 3) = Some (Other ''invalid header'')
   \<and> FileStream_Open broken_gzip_env ''data/rows.csv.GZ'' =
       (Inl (GzipFailed ''data/rows.csv.GZ'' (Other ''invalid header'')),
        [Opened (File 3), Closed (File 3)])
   \<and> open_handles (snd (FileStream_Open broken_gzip_env ''data/rows.csv.GZ'')) [] = []"
proof -
  have a: "ends_in_gz ''data/rows.csv.GZ''" by (simp add: ends_in_gz_def)
  have b: "os_Open broken_gzip_env ''data/rows.csv.GZ'' = Inr 3"
    by (simp add: broken_gzip_env_def)
  have c: "gzip_NewReader broken_gzip_env (File 3) = Some (Other ''invalid header'')"
    by (simp add: broken_gzip_env_def)
  from FileStream_gzip_failure_closes_file [OF a b c] a b c show ?thesis by blast
qed


lemma processRow_pipeline:
  "processRow p ix row =
     pipeline_calls p row
     @ (case first_failure p row of
          None \<Rightarrow> []
        | Some (t, err) \<Rightarrow> report p (Tagged t ix err))"
  by (auto simp: processRow_def pipeline_calls_def first_failure_def Let_def
      split: option.splits prod.splits)

lemma processRow_reports:
  "filter is_CallOnError (processRow p ix row) =
     (case first_failure p row of
        None \<Rightarrow> []
      | Some (t, err) \<Rightarrow> report p (Tagged t ix err))
   \<and> length (filter is_CallOnError (processRow p ix row)) \<le> 1
   \<and> (OnError p \<noteq> None \<longrightarrow>
        length (filter is_CallOnError (processRow p ix row)) =
          (if first_failure p row = None then 0 else 1))
   \<and> (OnError p = None \<longrightarrow> filter is_CallOnError (processRow p ix row) = [])
   \<and> \<not> list_ex is_CallOnError (butlast (processRow p ix row))
   \<and> ((\<exists>err. first_failure p row = Some (ErrOnRow, err)) \<longrightarrow>
        \<not> list_ex is_CallParse (processRow p ix row)
        \<and> \<not> list_ex is_CallOnData (processRow p ix row))
   \<and> ((\<exists>err. first_failure p row = Some (ErrParse, err)) \<longrightarrow>
        \<not> list_ex is_CallOnData (processRow p ix row))
   \<and> (Parse p = None \<longrightarrow>
        \<not> list_ex is_CallParse (processRow p ix row)
        \<and> \<not> list_ex is_CallOnData (processRow p ix row))"
  by (auto simp: processRow_def first_failure_def report_def Let_def
      split: option.splits prod.splits)

text \<open>
  C6, as the code has it. \<^verbatim>\<open>processRow\<close> invokes exactly the callbacks of the
  pipeline, in its order: the pre-parse hook if one is configured; if it did not fail
  and a parse function is configured, the parse function; if that did not fail and a
  result handler is configured, the result handler on the parsed value. It then
  reports the error of the first failing stage, tagged with the stage and the row
  ordinal, through the guarded report: at most one error; exactly one when a stage
  fails and an error callback is configured; none when no error callback is
  configured. The report is the last thing the worker does, so nothing runs after a
  failure: after a failing hook neither the parse function nor the result handler is
  called, after a failing parse function the result handler is not called, and
  without a parse function neither is called.
\<close>

theorem processRow_reports_first_failure:
  "processRow p ix row =
     pipeline_calls p row
     @ (case first_failure p row of
          None \<Rightarrow> []
        | Some (t, err) \<Rightarrow> report p (Tagged t ix err))
   \<and> filter is_CallOnError (processRow p ix row) =
     (case first_failure p row of
        None \<Rightarrow> []
      | Some (t, err) \<Rightarrow> report p (Tagged t ix err))
   \<and> length (filter is_CallOnError (processRow p ix row)) \<le> 1
   \<and> (OnError p \<noteq> None \<longrightarrow>
        length (filter is_CallOnError (processRow p ix row)) =
          (if first_failure p row = None then 0 else 1))
   \<and> (OnError p = None \<longrightarrow> filter is_CallOnError (processRow p ix row) = [])
   \<and> \<not> list_ex is_CallOnError (butlast (processRow p ix row))
   \<and> ((\<exists>err. first_failure p row = Some (ErrOnRow, err)) \<longrightarrow>
        \<not> list_ex is_CallParse (processRow p ix row)
        \<and> \<not> list_ex is_CallOnData (processRow p ix row))
   \<and> ((\<exists>err. first_failure p row = Some (ErrParse, err)) \<longrightarrow>
        \<not> list_ex is_CallOnData (processRow p ix row))
   \<and> (Parse p = None \<longrightarrow>
        \<not> list_ex is_CallParse (processRow p ix row)
        \<and> \<not> list_ex is_CallOnData (processRow p ix row))"
  using processRow_pipeline [of p ix row] processRow_reports [of p ix row] by blast

theorem processRow_reports_first_failure_witness:
  "OnError number_parser \<noteq> None
   \<and> first_failure number_parser [''1'', ''one''] = None
   \<and> processRow number_parser 1 [''1'', ''one''] = [CallParse [''1'', ''one''], CallOnData 2]
   \<and> first_failure number_parser [''3''] = Some (ErrParse, Other ''need 2 columns'')
   \<and> processRow number_parser 3 [''3''] =
       [CallParse [''3''], CallOnError (Tagged ErrParse 3 (Other ''need 2 columns''))]
   \<and> length (filter is_CallOnError (processRow number_parser 3 [''3''])) = 1
   \<and> \<not> list_ex is_CallOnData (processRow number_parser 3 [''3''])
   \<and> OnError silent_parser = None
   \<and> Parse silent_parser = None
   \<and> first_failure silent_parser [''3''] = Some (ErrOnRow, Other ''rejected'')
   \<and> processRow silent_parser 3 [''3''] = [CallOnRow [''3'']]
   \<and> filter is_CallOnError (processRow silent_parser 3 [''3'']) = []
   \<and> \<not> list_ex is_CallParse (processRow silent_parser 3 [''3''])"
proof -
  have a: "OnError number_parser \<noteq> None" by (simp add: number_parser_def)
  have g: "first_failure number_parser [''1'', ''one''] = None"
    "pipeline_calls number_parser [''1'', ''one''] = [CallParse [''1'', ''one''], CallOnData 2]"
    by (simp_all add: number_parser_def first_failure_def pipeline_calls_def)
  have b: "first_failure number_parser [''3''] = Some (ErrParse, Other ''need 2 columns'')"
    "pipeline_calls number_parser [''3''] = [CallParse [''3'']]"
    by (simp_all add: number_parser_def first_failure_def pipeline_calls_def)
  have c: "OnError silent_parser = None" "Parse silent_parser = None"
    by (simp_all add: silent_parser_def)
  have d: "first_failure silent_parser [''3''] = Some (ErrOnRow, Other ''rejected'')"
    "pipeline_calls silent_parser [''3''] = [CallOnRow [''3'']]"
    by (simp_all add: silent_parser_def first_failure_def pipeline_calls_def)
  have r: "report number_parser (Tagged ErrParse 3 (Other ''need 2 columns'')) =
      [CallOnError (Tagged ErrParse 3 (Other ''need 2 columns''))]"
    "report silent_parser (Tagged ErrOnRow 3 (Other ''rejected'')) = []"
    by (simp_all add: report_def number_parser_def silent_parser_def)
  from processRow_reports_first_failure [of number_parser 1 "[''1'', ''one'']"]
    processRow_reports_first_failure [of number_parser 3 "[''3'']"]
    processRow_reports_first_failure [of silent_parser 3 "[''3'']"]
    a g b c d r
  show ?thesis by auto
qed

text \<open>
  C6 as stated fails when no error callback is configured: the pre-parse hook fails
  on the row, and the worker reports nothing.
\<close>

theorem processRow_unreported_failure:
  "first_failure silent_parser [''1'', ''one''] = Some (ErrOnRow, Other ''rejected'')
   \<and> processRow silent_parser 1 [''1'', ''one''] = [CallOnRow [''1'', ''one'']]
   \<and> length (filter is_CallOnError (processRow silent_parser 1 [''1'', ''one''])) = 0"
  by (simp add: silent_parser_def first_failure_def processRow_def report_def)




lemma serial_run:
  "\<exists>s. exec number_parser 1 serial_schedule (init (rows_then_eof three_rows) False False) = Some s
      \<and> pc s = Returned
      \<and> reads s = [(1, Some (Record [''1'', ''one''])), (2, Some (Failed [] (Other ''bare quote''))),
                    (3, Some (Record [''3''])), (4, None)]"
  by (simp add: number_parser_def three_rows_def serial_schedule_def run_simps)

lemma refused_run:
  "\<exists>s. exec number_parser 0 [Main, Main] (init (rows_then_eof three_rows) False False) = Some s
      \<and> pc s = Returned"
  by (simp add: number_parser_def three_rows_def run_simps)

lemma cancelled_run:
  "\<exists>s. exec number_parser 1 cancelled_schedule (init (rows_then_eof three_rows) True False) = Some s
      \<and> pc s = Returned"
  by (simp add: number_parser_def three_rows_def cancelled_schedule_def run_simps)






text \<open>
  C2, at a context that is cancelled before \<^verbatim>\<open>Run\<close> is called, with one worker and
  a valid configuration: the channel has room, so the \<^verbatim>\<open>select\<close> statement may take
  the send on \<^verbatim>\<open>sem\<close>; \<^verbatim>\<open>Run\<close> then reads row 1 and starts a goroutine for it.
\<close>

theorem Run_cancelled_before_start_may_read:
  "config_ok number_parser 1
   \<and> (\<exists>s. exec number_parser 1 [Main, Main, Main, Main] (init (rows_then_eof three_rows) True False) = Some s
        \<and> cancelled s
        \<and> reads s = [(1, Some (Record [''1'', ''one'']))]
        \<and> length (active s) = 1)"
  by (simp add: config_ok_def number_parser_def three_rows_def run_simps)

text \<open>
  C8. The closer of a parser made by \<^verbatim>\<open>New\<close> is the stream that \<^verbatim>\<open>Open\<close> returned.
  In every state of a run, whatever the configuration and the cancellation, that stream
  has been closed once if \<^verbatim>\<open>Run\<close> has returned and not at all otherwise, and from
  every state the run can be completed, with the stream closed once.
\<close>

theorem stream_closed_once_on_return:
  assumes "New env strm = Inr p0"
    and "closer p = closer p0"
    and "exec p workers es (init src c reuse) = Some s"
  shows "fst (Open env strm) = Inr (closer p)
         \<and> closed s = (if pc s = Returned then [closer p] else [])
         \<and> (\<exists>es' s'. Cancel \<notin> set es' \<and> exec p workers es' s = Some s'
               \<and> pc s' = Returned \<and> closed s' = [closer p])"
proof -
  have a: "fst (Open env strm) = Inr (closer p)"
    using assms(1,2) by (auto simp: New_def split: sum.splits)
  have b: "closed s = (if pc s = Returned then [closer p] else [])"
    using close_inv_exec [OF assms(3)] by (simp add: close_inv_def)
  obtain es' s' where f: "Cancel \<notin> set es'" "exec p workers es' s = Some s'" "pc s' = Returned"
    using Run_can_return [OF assms(3)] by blast
  from assms(3) f(2) have "exec p workers (es @ es') (init src c reuse) = Some s'"
    by (simp add: exec_append)
  then have "close_inv p s'" by (rule close_inv_exec)
  with f(3) have "closed s' = [closer p]" by (simp add: close_inv_def)
  with a b f show ?thesis by blast
qed

theorem stream_closed_once_on_return_witness:
  "(New broken_gzip_env (ReadStream (PlainReader 0)) :: error + nat parser) =
      Inr (number_parser\<lparr>Parse := None, OnData := None, OnError := None\<rparr>)
   \<and> closer number_parser = NopCloser (PlainReader 0)
   \<and> (\<exists>s. exec number_parser 1 serial_schedule (init (rows_then_eof three_rows) False False) = Some s
        \<and> pc s = Returned \<and> closed s = [NopCloser (PlainReader 0)])
   \<and> (\<exists>s. exec number_parser 1 cancelled_schedule (init (rows_then_eof three_rows) True False) = Some s
        \<and> pc s = Returned \<and> closed s = [NopCloser (PlainReader 0)])
   \<and> (\<exists>s. exec number_parser 0 [Main, Main] (init (rows_then_eof three_rows) False False) = Some s
        \<and> pc s = Returned \<and> closed s = [NopCloser (PlainReader 0)])
   \<and> (\<exists>s. exec number_parser 1 [Main, Main, Main] (init (rows_then_eof three_rows) False False) = Some s
        \<and> pc s = Reading \<and> closed s = [])"
proof -
  let ?p0 = "number_parser\<lparr>Parse := None, OnData := None, OnError := None\<rparr>"
  have n: "(New broken_gzip_env (ReadStream (PlainReader 0)) :: error + nat parser) = Inr ?p0"
    by (simp add: New_def readerAdapter_Open_def number_parser_def)
  have c: "closer number_parser = closer ?p0" by simp
  have c': "closer number_parser = NopCloser (PlainReader 0)" by (simp add: number_parser_def)
  obtain s1 where s1: "exec number_parser 1 serial_schedule (init (rows_then_eof three_rows) False False) = Some s1"
    "pc s1 = Returned"
    using serial_run by auto
  obtain s2 where s2: "exec number_parser 1 cancelled_schedule (init (rows_then_eof three_rows) True False) = Some s2"
    "pc s2 = Returned"
    using cancelled_run by auto
  obtain s3 where s3: "exec number_parser 0 [Main, Main] (init (rows_then_eof three_rows) False False) = Some s3"
    "pc s3 = Returned"
    using refused_run by auto
  have "\<exists>s. exec number_parser 1 [Main, Main, Main] (init (rows_then_eof three_rows) False False) = Some s \<and> pc s = Reading"
    by (simp add: number_parser_def three_rows_def run_simps)
  then obtain s4 where s4: "exec number_parser 1 [Main, Main, Main] (init (rows_then_eof three_rows) False False) = Some s4"
    "pc s4 = Reading"
    by blast
  from stream_closed_once_on_return [OF n c s1(1)] s1 c'
  have 1: "\<exists>s. exec number_parser 1 serial_schedule (init (rows_then_eof three_rows) False False) = Some s
        \<and> pc s = Returned \<and> closed s = [NopCloser (PlainReader 0)]"
    by auto
  from stream_closed_once_on_return [OF n c s2(1)] s2 c'
  have 2: "\<exists>s. exec number_parser 1 cancelled_schedule (init (rows_then_eof three_rows) True False) = Some s
        \<and> pc s = Returned \<and> closed s = [NopCloser (PlainReader 0)]"
    by auto
  from stream_closed_once_on_return [OF n c s3(1)] s3 c'
  have 3: "\<exists>s. exec number_parser 0 [Main, Main] (init (rows_then_eof three_rows) False False) = Some s
        \<and> pc s = Returned \<and> closed s = [NopCloser (PlainReader 0)]"
    by auto
  from stream_closed_once_on_return [OF n c s4(1)] s4 c'
  have 4: "\<exists>s. exec number_parser 1 [Main, Main, Main] (init (rows_then_eof three_rows) False False) = Some s
        \<and> pc s = Reading \<and> closed s = []"
    by auto
  from n c' 1 2 3 4 show ?thesis by blast
qed


lemma rows_then_eof_log:
  "map (rows_then_eof inp) [0..<Suc (length inp)] = map Some inp @ [None]"
proof -
  have "map (rows_then_eof inp) [0..<length inp] = map Some inp"
    by (rule nth_equalityI) (simp_all add: rows_then_eof_def)
  then show ?thesis by (simp add: rows_then_eof_def)
qed

lemma rows_then_eof_None: "rows_then_eof inp k = None \<longleftrightarrow> length inp \<le> k"
  by (simp add: rows_then_eof_def)

lemma reads_as_zip:
  assumes "map fst rs = ordinals (length rs)" "map snd rs = map src [0..<length rs]"
    and "length rs \<le> Suc n"
  shows "rs = take (length rs) (zip (ordinals (Suc n)) (map src [0..<Suc n]))"
proof -
  have "rs = zip (map fst rs) (map snd rs)" by (simp add: zip_map_fst_snd)
  also have "\<dots> = zip (ordinals (length rs)) (map src [0..<length rs])"
    using assms(1,2) by simp
  also have "ordinals (length rs) = take (length rs) (ordinals (Suc n))"
    using assms(3) by (simp add: take_ordinals)
  also have "map src [0..<length rs] = take (length rs) (map src [0..<Suc n])"
    using assms(3) by (simp add: take_map del: upt_Suc)
  finally show ?thesis by (simp only: take_zip)
qed

text \<open>
  C5. Over a source of the rows \<open>inp\<close> followed by the end of input, in every state of
  a run with a valid configuration the reads made so far are the first ones of the
  sequence that reads the first row under the ordinal 1, the second under 2, and so
  on in document order, and meets the end of input under the ordinal after the last
  row: no gap, no repetition, whatever the number of workers and the schedule. When
  the loop has been left without a cancellation, all the rows have been read, under
  the ordinals 1 to N, followed by the read that returned \<^verbatim>\<open>io.EOF\<close>. The number of
  rows is one that an \<^verbatim>\<open>int\<close> can count.
\<close>

theorem read_ordinals_in_order:
  assumes "config_ok p workers"
    and "exec p workers es (init (rows_then_eof inp) c reuse) = Some s"
  shows "reads s =
           take (length (reads s)) (zip (ordinals (Suc (length inp))) (map Some inp @ [None]))
         \<and> row_reads s = take (pos s) (zip (ordinals (length inp)) (map Some inp))
         \<and> (\<not> in_loop (pc s) \<and> \<not> cancelled s \<and> int (length inp) < MaxInt \<longrightarrow>
              reads s = zip (ordinals (Suc (length inp))) (map Some inp @ [None]))
         \<and> (\<not> in_loop (pc s) \<and> \<not> cancelled s \<and> int (length inp) \<le> MaxInt \<longrightarrow>
              map fst (row_reads s) = ordinals (length inp)
              \<and> map snd (row_reads s) = map Some inp)"
proof -
  let ?src = "rows_then_eof inp"
  let ?N = "length inp"
  let ?log = "zip (ordinals (Suc ?N)) (map Some inp @ [None])"
  have inv: "order_inv ?src s" using assms by (rule order_inv_exec)
  then have f: "map fst (reads s) = ordinals (length (reads s))"
    and g: "map snd (reads s) = map ?src [0..<length (reads s)]"
    and l: "length (reads s) = pos s + (if at_eof s then 1 else 0)"
    and rr: "row_reads s = take (pos s) (reads s)"
    and rows: "\<forall>k < pos s. ?src k \<noteq> None"
    and e: "at_eof s \<longrightarrow> ?src (pos s) = None"
    and x: "\<not> in_loop (pc s) \<longrightarrow> cancelled s \<or> at_eof s \<or> int (pos s) = MaxInt"
    by (simp_all add: order_inv_def Let_def)
  have "?src ?N = None" by (simp add: rows_then_eof_def)
  with rows have pN: "pos s \<le> ?N" by (meson not_le_imp_less)
  from e have eN: "at_eof s \<longrightarrow> pos s = ?N"
    using pN by (auto simp: rows_then_eof_None)
  from l pN eN have len: "length (reads s) \<le> Suc ?N" by (auto split: if_splits)
  have a: "reads s = take (length (reads s)) ?log"
    using reads_as_zip [OF f g len] by (simp only: rows_then_eof_log)
  have lp: "pos s \<le> length (reads s)" using l by simp
  have b: "row_reads s = take (pos s) (zip (ordinals ?N) (map Some inp))"
  proof -
    have "row_reads s = take (pos s) (take (length (reads s)) ?log)"
      using rr a by simp
    also have "\<dots> = take (pos s) ?log" using lp by (simp add: min_absorb1)
    also have "\<dots> = take (pos s) (take ?N ?log)" using pN by (simp add: min_absorb1)
    also have "take ?N ?log = zip (ordinals ?N) (map Some inp)"
      by (simp add: take_zip take_ordinals)
    finally show ?thesis .
  qed
  have c: "\<not> in_loop (pc s) \<and> \<not> cancelled s \<and> int ?N < MaxInt \<longrightarrow> reads s = ?log"
  proof
    assume h: "\<not> in_loop (pc s) \<and> \<not> cancelled s \<and> int ?N < MaxInt"
    with x pN have "at_eof s" by auto
    with l eN have "length (reads s) = Suc ?N" by simp
    with a show "reads s = ?log" by (simp add: length_ordinals)
  qed
  have d: "\<not> in_loop (pc s) \<and> \<not> cancelled s \<and> int ?N \<le> MaxInt \<longrightarrow>
      map fst (row_reads s) = ordinals ?N \<and> map snd (row_reads s) = map Some inp"
  proof
    assume h: "\<not> in_loop (pc s) \<and> \<not> cancelled s \<and> int ?N \<le> MaxInt"
    with x pN eN have "pos s = ?N" by auto
    with b have "row_reads s = zip (ordinals ?N) (map Some inp)"
      by (simp add: length_ordinals)
    then show "map fst (row_reads s) = ordinals ?N \<and> map snd (row_reads s) = map Some inp"
      by (simp add: length_ordinals)
  qed
  from a b c d show ?thesis by simp
qed

theorem read_ordinals_in_order_witness:
  "config_ok number_parser 1
   \<and> int (length three_rows) < MaxInt
   \<and> (\<exists>s. exec number_parser 1 serial_schedule (init (rows_then_eof three_rows) False False) = Some s
        \<and> \<not> in_loop (pc s) \<and> \<not> cancelled s
        \<and> reads s = [(1, Some (Record [''1'', ''one''])),
                      (2, Some (Failed [] (Other ''bare quote''))),
                      (3, Some (Record [''3''])),
                      (4, None)]
        \<and> map fst (row_reads s) = [1, 2, 3])"
proof -
  have ok: "config_ok number_parser 1" by (simp add: config_ok_def number_parser_def)
  have len: "int (length three_rows) < MaxInt" by (simp add: three_rows_def MaxInt_def)
  have "\<exists>s. exec number_parser 1 serial_schedule (init (rows_then_eof three_rows) False False) = Some s
      \<and> \<not> in_loop (pc s) \<and> \<not> cancelled s"
    by (simp add: number_parser_def three_rows_def serial_schedule_def run_simps)
  then obtain s where s: "exec number_parser 1 serial_schedule (init (rows_then_eof three_rows) False False) = Some s"
    "\<not> in_loop (pc s)" "\<not> cancelled s"
    by auto
  have o: "zip (ordinals (Suc (length three_rows))) (map Some three_rows @ [None]) =
      [(1, Some (Record [''1'', ''one''])), (2, Some (Failed [] (Other ''bare quote''))),
       (3, Some (Record [''3''])), (4, None)]"
    "ordinals (length three_rows) = [1, 2, 3]"
    by (simp_all add: ordinals_def three_rows_def)
  note T = read_ordinals_in_order [OF ok s(1)]
  from len have len': "int (length three_rows) \<le> MaxInt" by simp
  from T s(2,3) len
  have r1: "reads s = zip (ordinals (Suc (length three_rows))) (map Some three_rows @ [None])"
    by blast
  from T s(2,3) len'
  have r2: "map fst (row_reads s) = ordinals (length three_rows)"
    by blast
  from r1 r2 o
  have "reads s = [(1, Some (Record [''1'', ''one''])),
                   (2, Some (Failed [] (Other ''bare quote''))),
                   (3, Some (Record [''3''])),
                   (4, None)]"
    "map fst (row_reads s) = [1, 2, 3]"
    by simp_all
  with s have "\<exists>s. exec number_parser 1 serial_schedule (init (rows_then_eof three_rows) False False) = Some s
        \<and> \<not> in_loop (pc s) \<and> \<not> cancelled s
        \<and> reads s = [(1, Some (Record [''1'', ''one''])),
                      (2, Some (Failed [] (Other ''bare quote''))),
                      (3, Some (Record [''3''])),
                      (4, None)]
        \<and> map fst (row_reads s) = [1, 2, 3]"
    by (intro exI [of _ s]) simp
  with ok len show ?thesis by (intro conjI)
qed

text \<open>
  C4. In every state of a run with a valid configuration for \<open>workers\<close> workers, the
  goroutines that have not released their slot are at most \<open>workers\<close>; each of them
  holds one token of \<^verbatim>\<open>sem\<close>, which \<^verbatim>\<open>Run\<close> acquired before the read and the
  \<^verbatim>\<open>go\<close> statement, and the channel holds no other token but the one \<^verbatim>\<open>Run\<close> may
  hold itself. A goroutine leaves only through its deferred function: when \<^verbatim>\<open>Run\<close>
  has returned, every goroutine is gone and has released its slot (the token left is
  the one \<^verbatim>\<open>Run\<close> took before the read that returned \<^verbatim>\<open>io.EOF\<close>).
\<close>

theorem slots_bound_workers:
  assumes "config_ok p workers"
    and "exec p workers es (init src c reuse) = Some s"
  shows "int (length (filter holding (active s))) \<le> workers
         \<and> sem s = length (filter holding (active s)) + (if main_holds s then 1 else 0)
         \<and> int (sem s) \<le> workers
         \<and> wg s = int (length (active s))
         \<and> (pc s = Returned \<longrightarrow> active s = [] \<and> sem s = (if at_eof s then 1 else 0))"
proof -
  have sl: "slots_inv workers s" and rt: "return_inv s"
    using return_inv_exec [OF assms] by simp_all
  from sl have a: "sem s = length (filter holding (active s)) + (if main_holds s then 1 else 0)"
    and b: "int (sem s) \<le> workers" and w: "wg s = int (length (active s))"
    by (simp_all add: slots_inv_def)
  from a b have c: "int (length (filter holding (active s))) \<le> workers" by simp
  from rt have d: "pc s = Returned \<longrightarrow> active s = []" by (simp add: return_inv_def)
  from a d have e: "pc s = Returned \<longrightarrow> sem s = (if at_eof s then 1 else 0)"
    by (auto simp: main_holds_def)
  from a b c w d e show ?thesis by simp
qed

theorem slots_bound_workers_witness:
  "config_ok number_parser 2
   \<and> (\<exists>s. exec number_parser 2 two_dispatched (init (rows_then_eof good_rows) False False) = Some s
        \<and> pc s = Select \<and> length (filter holding (active s)) = 2 \<and> sem s = 2
        \<and> step number_parser 2 Main s = None)
   \<and> (\<exists>s. exec number_parser 1 serial_schedule (init (rows_then_eof three_rows) False False) = Some s
        \<and> pc s = Returned \<and> at_eof s \<and> active s = [] \<and> sem s = 1)"
proof -
  have ok: "config_ok number_parser 2" "config_ok number_parser 1"
    by (simp_all add: config_ok_def number_parser_def)
  have "\<exists>s. exec number_parser 2 two_dispatched (init (rows_then_eof good_rows) False False) = Some s
      \<and> pc s = Select \<and> length (filter holding (active s)) = 2"
    by (simp add: number_parser_def good_rows_def two_dispatched_def run_simps holding_def)
  then obtain s where s: "exec number_parser 2 two_dispatched (init (rows_then_eof good_rows) False False) = Some s"
    "pc s = Select" "length (filter holding (active s)) = 2"
    by auto
  from slots_bound_workers [OF ok(1) s(1)] s
  have m: "sem s = 2" by (simp add: main_holds_def)
  with s have "step number_parser 2 Main s = None" by (simp add: main_step_def)
  with s m have 1: "\<exists>s. exec number_parser 2 two_dispatched (init (rows_then_eof good_rows) False False) = Some s
        \<and> pc s = Select \<and> length (filter holding (active s)) = 2 \<and> sem s = 2
        \<and> step number_parser 2 Main s = None"
    by (intro exI [of _ s]) simp
  have "\<exists>s. exec number_parser 1 serial_schedule (init (rows_then_eof three_rows) False False) = Some s
      \<and> pc s = Returned \<and> at_eof s"
    by (simp add: number_parser_def three_rows_def serial_schedule_def run_simps at_eof_def)
  then obtain r where r: "exec number_parser 1 serial_schedule (init (rows_then_eof three_rows) False False) = Some r"
    "pc r = Returned" "at_eof r"
    by auto
  from slots_bound_workers [OF ok(2) r(1)] r
  have 2: "\<exists>s. exec number_parser 1 serial_schedule (init (rows_then_eof three_rows) False False) = Some s
        \<and> pc s = Returned \<and> at_eof s \<and> active s = [] \<and> sem s = 1"
    by (auto simp: main_holds_def)
  from ok(1) 1 2 show ?thesis by blast
qed

text \<open>
  C3. In every state of a run with a valid configuration and one worker: past the
  entry the tokenizer reuses its buffer, and every slice handed to a goroutine is that
  buffer; a goroutine that has not released its slot finds in the buffer the fields
  that were read for its row; at most one goroutine has not released its slot; and
  when \<^verbatim>\<open>Run\<close> stands before a read, it holds the only slot and every goroutine
  started before has released its own, so the read overwrites the buffer of no
  goroutine that is still at work.
\<close>

theorem single_worker_reuse_is_safe:
  assumes "config_ok p 1"
    and "exec p 1 es (init src c reuse) = Some s"
  shows "(pc s \<noteq> Entry \<longrightarrow> ReuseRecord s)
         \<and> (\<forall>w \<in> set (active s). w_addr w = 0 \<and> (holding w \<longrightarrow> heap s 0 = w_row w))
         \<and> length (filter holding (active s)) \<le> 1
         \<and> (pc s = Reading \<longrightarrow> sem s = 1 \<and> (\<forall>w \<in> set (active s). \<not> holding w))"
proof -
  have hp: "heap_inv 1 s" and sl: "slots_inv 1 s"
    using heap_inv_exec [OF assms] by simp_all
  from hp have a: "pc s \<noteq> Entry \<longrightarrow> ReuseRecord s"
    and e: "pc s = Entry \<longrightarrow> active s = []"
    and w: "\<forall>w \<in> set (active s). slice_ok (ReuseRecord s) (heap s) (fresh s) w"
    unfolding heap_inv_def by blast+
  have b: "\<forall>w \<in> set (active s). w_addr w = 0 \<and> (holding w \<longrightarrow> heap s 0 = w_row w)"
  proof (cases "pc s = Entry")
    case True
    with e show ?thesis by simp
  next
    case False
    with a w show ?thesis by (auto simp: slice_ok_def)
  qed
  from sl have c: "length (filter holding (active s)) \<le> 1"
    by (simp add: slots_inv_def split: if_splits)
  have d: "pc s = Reading \<longrightarrow> sem s = 1 \<and> (\<forall>w \<in> set (active s). \<not> holding w)"
  proof
    assume r: "pc s = Reading"
    then have "\<forall>w \<in> set (active s). \<not> holding w"
      using no_holder_when_reading [OF sl] by simp
    moreover from sl r have "sem s = 1" by (auto simp: slots_inv_def main_holds_def)
    ultimately show "sem s = 1 \<and> (\<forall>w \<in> set (active s). \<not> holding w)" by simp
  qed
  from a b c d show ?thesis by simp
qed

theorem single_worker_reuse_is_safe_witness:
  "config_ok number_parser 1
   \<and> (\<exists>s. exec number_parser 1 second_select (init (rows_then_eof good_rows) False False) = Some s
        \<and> pc s = Select \<and> ReuseRecord s
        \<and> map w_row (filter holding (active s)) = [[''1'', ''one'']]
        \<and> map w_addr (active s) = [0]
        \<and> heap s 0 = [''1'', ''one'']
        \<and> step number_parser 1 Main s = None)
   \<and> (\<exists>s. exec number_parser 1 released_then_acquired (init (rows_then_eof good_rows) False False) = Some s
        \<and> pc s = Reading \<and> sem s = 1 \<and> length (active s) = 1
        \<and> filter holding (active s) = [])"
proof -
  have ok: "config_ok number_parser 1" by (simp add: config_ok_def number_parser_def)
  have "\<exists>s. exec number_parser 1 second_select (init (rows_then_eof good_rows) False False) = Some s
      \<and> pc s = Select \<and> map w_row (filter holding (active s)) = [[''1'', ''one'']]
      \<and> map w_addr (active s) = [0] \<and> sem s = 1"
    by (simp add: number_parser_def good_rows_def second_select_def first_dispatch_def
        run_simps holding_def)
  then obtain s where s: "exec number_parser 1 second_select (init (rows_then_eof good_rows) False False) = Some s"
    "pc s = Select" "map w_row (filter holding (active s)) = [[''1'', ''one'']]"
    "map w_addr (active s) = [0]" "sem s = 1"
    by auto
  from s(3) obtain w where w: "filter holding (active s) = [w]" "w_row w = [''1'', ''one'']"
    by auto
  then have hw: "w \<in> set (active s)" "holding w"
    using filter_eq_ConsD [of holding "active s" w "[]"] by auto
  from single_worker_reuse_is_safe [OF ok s(1)] s(2) hw w(2)
  have h: "ReuseRecord s" "heap s 0 = [''1'', ''one'']" by auto
  from s(2,5) have b: "step number_parser 1 Main s = None" by (simp add: main_step_def)
  from s h b have 1: "\<exists>s. exec number_parser 1 second_select (init (rows_then_eof good_rows) False False) = Some s
        \<and> pc s = Select \<and> ReuseRecord s
        \<and> map w_row (filter holding (active s)) = [[''1'', ''one'']]
        \<and> map w_addr (active s) = [0]
        \<and> heap s 0 = [''1'', ''one'']
        \<and> step number_parser 1 Main s = None"
    by (intro exI [of _ s]) simp
  have "\<exists>s. exec number_parser 1 released_then_acquired (init (rows_then_eof good_rows) False False) = Some s
      \<and> pc s = Reading \<and> length (active s) = 1"
    by (simp add: number_parser_def good_rows_def released_then_acquired_def first_dispatch_def
        run_simps)
  then obtain r where r: "exec number_parser 1 released_then_acquired (init (rows_then_eof good_rows) False False) = Some r"
    "pc r = Reading" "length (active r) = 1"
    by auto
  from single_worker_reuse_is_safe [OF ok r(1)] r(2)
  have "sem r = 1" "filter holding (active r) = []"
    by (auto simp: filter_empty_conv)
  with r have 2: "\<exists>s. exec number_parser 1 released_then_acquired (init (rows_then_eof good_rows) False False) = Some s
        \<and> pc s = Reading \<and> sem s = 1 \<and> length (active s) = 1
        \<and> filter holding (active s) = []"
    by (intro exI [of _ r]) simp
  from ok 1 2 show ?thesis by blast
qed

text \<open>
  C7. Whatever the caller has left in the reuse flag of the tokenizer, in every state
  of a run with a valid configuration past the entry checks the flag is set exactly
  if there is one worker. With two or more
  workers the slices of the goroutines are distinct allocations, none of them the
  reused buffer, and each still holds the fields that were read for its row.
\<close>

theorem ReuseRecord_iff_one_worker:
  assumes "config_ok p workers"
    and "exec p workers es (init src c reuse) = Some s"
    and "pc s \<noteq> Entry"
  shows "ReuseRecord s = (workers = 1)
         \<and> (2 \<le> workers \<longrightarrow>
              distinct (map w_addr (active s))
              \<and> (\<forall>w \<in> set (active s). w_addr w \<noteq> 0 \<and> heap s (w_addr w) = w_row w))"
proof -
  have hp: "heap_inv workers s"
    using heap_inv_exec [OF assms(1,2)] by simp
  with assms(3) have a: "ReuseRecord s = (workers = 1)"
    and w: "\<forall>w \<in> set (active s). slice_ok (ReuseRecord s) (heap s) (fresh s) w"
    and d: "\<not> ReuseRecord s \<longrightarrow> distinct (map w_addr (active s))"
    unfolding heap_inv_def by blast+
  from a w d show ?thesis by (auto simp: slice_ok_def)
qed

theorem ReuseRecord_iff_one_worker_witness:
  "config_ok number_parser 2 \<and> config_ok number_parser 1
   \<and> (\<exists>s. exec number_parser 2 two_dispatched (init (rows_then_eof good_rows) False True) = Some s
        \<and> pc s \<noteq> Entry \<and> \<not> ReuseRecord s
        \<and> map w_addr (active s) = [1, 2]
        \<and> map (\<lambda>w. heap s (w_addr w)) (active s) = [[''1'', ''one''], [''2'', ''two'']])
   \<and> (\<exists>s. exec number_parser 1 first_dispatch (init (rows_then_eof good_rows) False False) = Some s
        \<and> pc s \<noteq> Entry \<and> ReuseRecord s)"
proof -
  have ok: "config_ok number_parser 2" "config_ok number_parser 1"
    by (simp_all add: config_ok_def number_parser_def)
  have "\<exists>s. exec number_parser 2 two_dispatched (init (rows_then_eof good_rows) False True) = Some s
      \<and> pc s \<noteq> Entry \<and> map w_addr (active s) = [1, 2]
      \<and> map w_row (active s) = [[''1'', ''one''], [''2'', ''two'']]"
    by (simp add: number_parser_def good_rows_def two_dispatched_def run_simps)
  then obtain s where s: "exec number_parser 2 two_dispatched (init (rows_then_eof good_rows) False True) = Some s"
    "pc s \<noteq> Entry" "map w_addr (active s) = [1, 2]"
    "map w_row (active s) = [[''1'', ''one''], [''2'', ''two'']]"
    by auto
  from ReuseRecord_iff_one_worker [OF ok(1) s(1,2)]
  have r: "\<not> ReuseRecord s" "\<forall>w \<in> set (active s). heap s (w_addr w) = w_row w"
    by auto
  from r(2) have "map (\<lambda>w. heap s (w_addr w)) (active s) = map w_row (active s)"
    by simp
  with s r(1) have 1: "\<exists>s. exec number_parser 2 two_dispatched (init (rows_then_eof good_rows) False True) = Some s
        \<and> pc s \<noteq> Entry \<and> \<not> ReuseRecord s
        \<and> map w_addr (active s) = [1, 2]
        \<and> map (\<lambda>w. heap s (w_addr w)) (active s) = [[''1'', ''one''], [''2'', ''two'']]"
    by auto
  have "\<exists>s. exec number_parser 1 first_dispatch (init (rows_then_eof good_rows) False False) = Some s \<and> pc s \<noteq> Entry"
    by (simp add: number_parser_def good_rows_def first_dispatch_def run_simps)
  then obtain t where t: "exec number_parser 1 first_dispatch (init (rows_then_eof good_rows) False False) = Some t"
    "pc t \<noteq> Entry"
    by auto
  from ReuseRecord_iff_one_worker [OF ok(2) t(1,2)] t
  have 2: "\<exists>s. exec number_parser 1 first_dispatch (init (rows_then_eof good_rows) False False) = Some s
        \<and> pc s \<noteq> Entry \<and> ReuseRecord s"
    by auto
  from ok 1 2 show ?thesis by blast
qed

end
